theory Spec2Isabelle
  imports Main "HOL-Library.Word"
begin

section \<open>Data model\<close>

text \<open>
  The allocator of \<^verbatim>\<open>osmem.c\<close> keeps a doubly linked list of block headers inside the
  memory it manages. Addresses and \<^verbatim>\<open>size_t\<close> values are 64-bit words: all arithmetic
  wraps, all comparisons are unsigned, and the null pointer is the word 0. Pointer
  arithmetic in the source is on \<^verbatim>\<open>void *\<close>, that is bytewise.
\<close>

type_synonym addr = "64 word"
type_synonym size_t = "64 word"

text \<open>
  Modelled from the spec: \<^verbatim>\<open>block_meta.h\<close> is not among the sources. The spec gives the
  header the fields size, status, prev and next and the three status values FREE, ALLOC
  and MAPPED. The field names carry the prefix \<open>bm_\<close> (\<open>size\<close> is a HOL constant and
  \<open>next\<close> a keyword).
\<close>

datatype status = STATUS_FREE | STATUS_ALLOC | STATUS_MAPPED

record block_meta =
  bm_size :: size_t
  bm_status :: status
  bm_prev :: addr
  bm_next :: addr

text \<open>
  Modelled from the spec: \<^verbatim>\<open>sizeof(struct block_meta)\<close>. With the four fields above on a
  64-bit target the structure takes 32 bytes, the value \<^verbatim>\<open>header_size\<close> starts with.
\<close>

definition sizeof_block_meta :: size_t where
  "sizeof_block_meta = 32"

definition MMAP_THRESHOLD :: size_t where
  "MMAP_THRESHOLD = 128 * 1024"

definition INIT_MEM_ALLOC :: size_t where
  "INIT_MEM_ALLOC = 128 * 1024"

definition INT_MAX :: size_t where
  "INT_MAX = 2147483647"

text \<open>
  The state holds the three globals of \<^verbatim>\<open>osmem.c\<close>, the part of the kernel the allocator
  talks to (the program break, the page size, the live anonymous mappings and the address
  the next mapping gets), and the memory. Memory is seen through two views: \<open>meta\<close> gives
  the header stored at an address and \<open>mem\<close> the payload byte stored at an address. The
  two views are independent: a header and a payload byte at overlapping addresses do not
  influence each other, and no access faults.
\<close>

record state =
  heap_start :: addr
  header_size :: size_t
  pagesize :: size_t
  program_break :: addr
  sys_pagesize :: size_t
  map_next :: addr
  maps :: "(addr \<times> size_t) list"
  meta :: "addr \<Rightarrow> block_meta"
  mem :: "addr \<Rightarrow> 8 word"

text \<open>
  The two ways the program ends without returning: \<open>Died\<close> is the \<^verbatim>\<open>DIE\<close> of the source,
  \<open>Fault\<close> a store into memory the process does not have.
\<close>

datatype error = Died | Fault

section \<open>Kernel interface\<close>

text \<open>
  \<^verbatim>\<open>sbrk\<close> moves the break by the given amount and returns the old break; \<^verbatim>\<open>brk\<close> sets it.
  \<^verbatim>\<open>mmap\<close> hands out zero-filled memory at \<open>map_next\<close> and advances \<open>map_next\<close> by the
  length rounded up to whole pages; \<^verbatim>\<open>munmap\<close> forgets the mappings that start at the
  address. The kernel of the model never refuses a request.
\<close>

definition sbrk :: "size_t \<Rightarrow> state \<Rightarrow> addr \<times> state" where
  "sbrk increment s = (program_break s, s\<lparr>program_break := program_break s + increment\<rparr>)"

definition brk :: "addr \<Rightarrow> state \<Rightarrow> state" where
  "brk a s = s\<lparr>program_break := a\<rparr>"

definition page_round :: "size_t \<Rightarrow> size_t \<Rightarrow> size_t" where
  "page_round ps bytes = (if ps = 0 then bytes else ((bytes + ps - 1) div ps) * ps)"

definition mmap :: "size_t \<Rightarrow> state \<Rightarrow> addr \<times> state" where
  "mmap bytes s =
     (map_next s,
      s\<lparr>map_next := map_next s + page_round (sys_pagesize s) bytes,
        maps := (map_next s, bytes) # maps s,
        mem := (\<lambda>a. if a - map_next s < bytes then 0 else mem s a)\<rparr>)"

definition munmap :: "addr \<Rightarrow> size_t \<Rightarrow> state \<Rightarrow> state" where
  "munmap a len s = s\<lparr>maps := filter (\<lambda>m. fst m \<noteq> a) (maps s)\<rparr>"

definition getpagesize :: "state \<Rightarrow> size_t" where
  "getpagesize s = sys_pagesize s"

text \<open>
  The kernel hands out memory in whole pages: the data segment can be accessed up to the
  end of the page the program break lies in, a mapping up to the end of its last page.
  \<open>accessible s a n\<close> says that the \<open>n\<close> bytes from \<open>a\<close> lie below the end of the data
  segment or inside one live mapping. The model asks for it where the allocator stores
  into memory it has just obtained (\<^verbatim>\<open>alloc_block\<close>). Every other access is taken to
  succeed, also one to the header of a released mapping, which \<open>meta\<close> keeps: the
  statements about the heap list therefore ask for a list whose blocks tile the range
  from \<open>heap_start\<close> to the program break.
\<close>

definition page_up :: "nat \<Rightarrow> nat \<Rightarrow> nat" where
  "page_up ps n = (if ps = 0 then n else ((n + ps - 1) div ps) * ps)"

definition accessible :: "state \<Rightarrow> addr \<Rightarrow> nat \<Rightarrow> bool" where
  "accessible s a n =
     (unat a + n \<le> page_up (unat (sys_pagesize s)) (unat (program_break s))
      \<or> list_ex (\<lambda>m. unat (fst m) \<le> unat a
                       \<and> unat a + n \<le> unat (fst m) + page_up (unat (sys_pagesize s)) (unat (snd m)))
           (maps s))"

section \<open>Header accessors\<close>

definition set_size :: "addr \<Rightarrow> size_t \<Rightarrow> state \<Rightarrow> state" where
  "set_size b v s = s\<lparr>meta := (meta s)(b := (meta s b)\<lparr>bm_size := v\<rparr>)\<rparr>"

definition set_status :: "addr \<Rightarrow> status \<Rightarrow> state \<Rightarrow> state" where
  "set_status b v s = s\<lparr>meta := (meta s)(b := (meta s b)\<lparr>bm_status := v\<rparr>)\<rparr>"

definition set_prev :: "addr \<Rightarrow> addr \<Rightarrow> state \<Rightarrow> state" where
  "set_prev b v s = s\<lparr>meta := (meta s)(b := (meta s b)\<lparr>bm_prev := v\<rparr>)\<rparr>"

definition set_next :: "addr \<Rightarrow> addr \<Rightarrow> state \<Rightarrow> state" where
  "set_next b v s = s\<lparr>meta := (meta s)(b := (meta s b)\<lparr>bm_next := v\<rparr>)\<rparr>"

abbreviation size_of :: "state \<Rightarrow> addr \<Rightarrow> size_t" where
  "size_of s b \<equiv> bm_size (meta s b)"

abbreviation status_of :: "state \<Rightarrow> addr \<Rightarrow> status" where
  "status_of s b \<equiv> bm_status (meta s b)"

abbreviation prev_of :: "state \<Rightarrow> addr \<Rightarrow> addr" where
  "prev_of s b \<equiv> bm_prev (meta s b)"

abbreviation next_of :: "state \<Rightarrow> addr \<Rightarrow> addr" where
  "next_of s b \<equiv> bm_next (meta s b)"

section \<open>The allocator\<close>

definition aligned_size :: "size_t \<Rightarrow> size_t" where
  "aligned_size bytes = (if bytes mod 8 = 0 then bytes else bytes + 8 - (bytes mod 8))"

text \<open>
  \<^verbatim>\<open>alloc_block\<close> stores a header of \<^verbatim>\<open>sizeof(struct block_meta)\<close> bytes at the address the
  kernel returned, whatever the number of bytes it asked for. Where these bytes are not
  all accessible, the first store that leaves the accessible memory ends the program:
  this is the error \<open>Fault\<close>. The \<^verbatim>\<open>DIE\<close> check on a null block is the error \<open>Died\<close>.
\<close>

definition alloc_block :: "addr \<Rightarrow> size_t \<Rightarrow> size_t \<Rightarrow> state \<Rightarrow> error + (addr \<times> state)" where
  "alloc_block prev_block bytes threshold s =
     (let (block, s1) = (if bytes > threshold then mmap bytes s else sbrk bytes s)
      in if \<not> accessible s1 block (unat sizeof_block_meta) then Inl Fault
         else
           let s2 = set_status block
                      (if bytes > threshold then STATUS_MAPPED else STATUS_ALLOC) s1
           in if block = 0 then Inl Died
              else
                let s3 = set_size block (bytes - header_size s2) s2;
                    s4 = set_prev block prev_block s3;
                    s5 = (if prev_block \<noteq> 0 then set_next prev_block block s4 else s4);
                    s6 = set_next block 0 s5
                in Inr (block, s6))"

text \<open>The loop of \<^verbatim>\<open>fill_with_zeros\<close>: payload byte \<open>i\<close> is cleared for \<open>i\<close> from 0 up to the size.\<close>

definition zero_loop :: "addr \<Rightarrow> size_t \<Rightarrow> (addr \<Rightarrow> 8 word) \<Rightarrow> (addr \<Rightarrow> 8 word)" where
  "zero_loop payload n m = fold (\<lambda>i m'. m'(payload + of_nat i := 0)) [0..<unat n] m"

definition fill_with_zeros :: "addr \<Rightarrow> state \<Rightarrow> state" where
  "fill_with_zeros block s =
     s\<lparr>mem := zero_loop (block + header_size s) (size_of s block) (mem s)\<rparr>"

definition alloc_block_with_zeros :: "addr \<Rightarrow> size_t \<Rightarrow> state \<Rightarrow> error + (addr \<times> state)" where
  "alloc_block_with_zeros prev_block bytes s =
     (case alloc_block prev_block bytes (pagesize s) s of
        Inl e \<Rightarrow> Inl e
      | Inr (block, s1) \<Rightarrow> Inr (block, fill_with_zeros block s1))"

definition split :: "addr \<Rightarrow> size_t \<Rightarrow> state \<Rightarrow> state" where
  "split block bytes s =
     (if header_size s + size_of s block - bytes \<le> header_size s then s
      else
        let new_block = block + bytes;
            s1 = set_size new_block (size_of s block - bytes) s;
            s2 = set_size block (bytes - header_size s1) s1;
            s3 = set_status new_block STATUS_FREE s2;
            s4 = set_prev new_block block s3;
            s5 = set_next new_block (next_of s4 block) s4;
            s6 = set_next block new_block s5
        in if next_of s6 new_block \<noteq> 0
           then set_prev (next_of s6 new_block) new_block s6
           else s6)"

definition merge :: "addr \<Rightarrow> addr \<Rightarrow> state \<Rightarrow> state" where
  "merge first second s =
     (let s1 = set_size first (size_of s first + (header_size s + size_of s second)) s;
          s2 = (if next_of s1 (next_of s1 first) \<noteq> 0
                then set_prev (next_of s1 (next_of s1 first)) first s1
                else s1)
      in set_next first (next_of s2 (next_of s2 first)) s2)"

text \<open>
  The loops that follow the \<open>next\<close> links run as long as the links lead on: they are
  partial functions, and \<open>None\<close> is the run that never ends.
\<close>

partial_function (option) coalesce_loop :: "addr \<Rightarrow> state \<Rightarrow> state option" where
  "coalesce_loop first_block s =
     (if next_of s first_block \<noteq> 0 then
        (if status_of s first_block = STATUS_FREE
            \<and> status_of s (next_of s first_block) = STATUS_FREE
         then coalesce_loop first_block (merge first_block (next_of s first_block) s)
         else coalesce_loop (next_of s first_block) s)
      else Some s)"

definition coalesce_blocks :: "addr \<Rightarrow> state \<Rightarrow> state option" where
  "coalesce_blocks first_block s = (if first_block = 0 then Some s else coalesce_loop first_block s)"

partial_function (option) find_best_loop :: "addr \<Rightarrow> addr \<Rightarrow> size_t \<Rightarrow> state \<Rightarrow> addr option" where
  "find_best_loop first_block best_fit bytes s =
     (let best_fit' =
            (if status_of s first_block = STATUS_FREE
                \<and> size_of s first_block + header_size s \<ge> bytes
             then (if best_fit = 0 \<or> size_of s first_block < size_of s best_fit
                   then first_block else best_fit)
             else best_fit)
      in if next_of s first_block = 0 then Some best_fit'
         else find_best_loop (next_of s first_block) best_fit' bytes s)"

definition find_best_block :: "addr \<Rightarrow> size_t \<Rightarrow> state \<Rightarrow> (addr \<times> state) option" where
  "find_best_block first_block bytes s =
     (case find_best_loop first_block 0 bytes s of
        None \<Rightarrow> None
      | Some best_fit \<Rightarrow>
          if best_fit \<noteq> 0
          then Some (best_fit, set_status best_fit STATUS_ALLOC (split best_fit bytes s))
          else Some (0, s))"

definition prealloc :: "size_t \<Rightarrow> size_t \<Rightarrow> state \<Rightarrow> error + (addr \<times> state)" where
  "prealloc threshold bytes s =
     (if threshold = pagesize s then
        (if bytes < threshold then
           (case alloc_block 0 INIT_MEM_ALLOC INT_MAX s of
              Inl e \<Rightarrow> Inl e
            | Inr (block, s1) \<Rightarrow>
                Inr (block,
                     s1\<lparr>mem := zero_loop (block + header_size s1) (size_of s1 block) (mem s1)\<rparr>))
         else alloc_block_with_zeros 0 bytes s)
      else
        (if bytes < threshold then alloc_block 0 INIT_MEM_ALLOC threshold s
         else alloc_block 0 bytes threshold s))"

text \<open>The walk to the last block of the list, as both \<^verbatim>\<open>os_malloc\<close> and \<^verbatim>\<open>os_calloc\<close> do it.\<close>

partial_function (option) last_block :: "addr \<Rightarrow> state \<Rightarrow> addr option" where
  "last_block block s =
     (if next_of s block \<noteq> 0 then last_block (next_of s block) s else Some block)"

text \<open>
  The public operations return \<open>None\<close> when a loop does not end, \<open>Some (Inl e)\<close> when the
  program ends with the error \<open>e\<close>, and \<open>Some (Inr (p, s'))\<close> when they return the pointer
  \<open>p\<close> in the state \<open>s'\<close>.
\<close>

definition os_malloc :: "size_t \<Rightarrow> state \<Rightarrow> (error + (addr \<times> state)) option" where
  "os_malloc size0 s =
     (let size = aligned_size size0 in
      if size = 0 then Some (Inr (0, s))
      else if size + header_size s > MMAP_THRESHOLD then
        (case alloc_block 0 (size + header_size s) MMAP_THRESHOLD s of
           Inl e \<Rightarrow> Some (Inl e)
         | Inr (block, s1) \<Rightarrow> Some (Inr (block + header_size s1, s1)))
      else if heap_start s = 0 then
        (case prealloc MMAP_THRESHOLD (size + header_size s) s of
           Inl e \<Rightarrow> Some (Inl e)
         | Inr (block, s1) \<Rightarrow>
             Some (Inr (block + header_size s1, s1\<lparr>heap_start := block\<rparr>)))
      else
        (case coalesce_blocks (heap_start s) s of
           None \<Rightarrow> None
         | Some s1 \<Rightarrow>
            (case find_best_block (heap_start s1) (size + header_size s1) s1 of
               None \<Rightarrow> None
             | Some (block, s2) \<Rightarrow>
                 if block = 0 then
                   (case last_block (heap_start s2) s2 of
                      None \<Rightarrow> None
                    | Some tail \<Rightarrow>
                        if status_of s2 tail = STATUS_FREE then
                          (case alloc_block tail (size - size_of s2 tail) MMAP_THRESHOLD s2 of
                             Inl e \<Rightarrow> Some (Inl e)
                           | Inr (new_block, s3) \<Rightarrow>
                               let s4 = merge tail new_block s3;
                                   s5 = set_status tail STATUS_ALLOC s4
                               in Some (Inr (tail + header_size s5, s5)))
                        else
                          (case alloc_block tail (size + header_size s2) MMAP_THRESHOLD s2 of
                             Inl e \<Rightarrow> Some (Inl e)
                           | Inr (new_block, s3) \<Rightarrow>
                               Some (Inr (new_block + header_size s3, s3))))
                 else Some (Inr (block + header_size s2, s2)))))"

definition os_free :: "addr \<Rightarrow> state \<Rightarrow> state" where
  "os_free ptr s =
     (if ptr = 0 then s
      else
        let block = ptr - header_size s in
        if block = 0 \<or> status_of s block = STATUS_FREE then s
        else if status_of s block = STATUS_MAPPED
          then munmap (ptr - header_size s) (size_of s block + header_size s) s
          else set_status block STATUS_FREE s)"

definition os_calloc :: "size_t \<Rightarrow> size_t \<Rightarrow> state \<Rightarrow> (error + (addr \<times> state)) option" where
  "os_calloc nmemb size0 s =
     (if nmemb = 0 \<or> size0 = 0 then Some (Inr (0, s))
      else
        let new_size = aligned_size (nmemb * size0);
            s0 = (if pagesize s = 0 then s\<lparr>pagesize := getpagesize s\<rparr> else s)
        in
        if size0 + header_size s0 > pagesize s0 then
          (case alloc_block 0 (new_size + header_size s0) (pagesize s0) s0 of
             Inl e \<Rightarrow> Some (Inl e)
           | Inr (block, s1) \<Rightarrow> Some (Inr (block + header_size s1, s1)))
        else if heap_start s0 = 0 then
          (let sh = s0\<lparr>header_size := aligned_size sizeof_block_meta\<rparr> in
           case prealloc (pagesize sh) (new_size + header_size sh) sh of
             Inl e \<Rightarrow> Some (Inl e)
           | Inr (block, s1) \<Rightarrow>
               Some (Inr (block + header_size s1, s1\<lparr>heap_start := block\<rparr>)))
        else
          (case coalesce_blocks (heap_start s0) s0 of
             None \<Rightarrow> None
           | Some s1 \<Rightarrow>
              (case find_best_block (heap_start s1) (new_size + header_size s1) s1 of
                 None \<Rightarrow> None
               | Some (block, s2) \<Rightarrow>
                   if block = 0 then
                     (case last_block (heap_start s2) s2 of
                        None \<Rightarrow> None
                      | Some tail \<Rightarrow>
                          if status_of s2 tail = STATUS_FREE then
                            (case alloc_block tail (new_size - size_of s2 tail) (pagesize s2) s2 of
                               Inl e \<Rightarrow> Some (Inl e)
                             | Inr (new_block, s3) \<Rightarrow>
                                 let s4 = merge tail new_block s3;
                                     s5 = fill_with_zeros tail s4
                                 in Some (Inr (tail + header_size s5, s5)))
                          else
                            (case alloc_block_with_zeros tail (new_size + header_size s2) s2 of
                               Inl e \<Rightarrow> Some (Inl e)
                             | Inr (new_block, s3) \<Rightarrow>
                                 Some (Inr (new_block + header_size s3, s3))))
                   else
                     let s3 = fill_with_zeros block s2
                     in Some (Inr (block + header_size s3, s3)))))"

text \<open>The copy loop of \<^verbatim>\<open>relocate_mem\<close>, byte by byte from index 0 upwards.\<close>

definition copy_loop :: "addr \<Rightarrow> addr \<Rightarrow> size_t \<Rightarrow> (addr \<Rightarrow> 8 word) \<Rightarrow> (addr \<Rightarrow> 8 word)" where
  "copy_loop dst src n m = fold (\<lambda>i m'. m'(dst + of_nat i := m' (src + of_nat i))) [0..<unat n] m"

definition relocate_mem :: "addr \<Rightarrow> size_t \<Rightarrow> state \<Rightarrow> (error + (addr \<times> state)) option" where
  "relocate_mem block size0 s =
     (case os_malloc size0 s of
        None \<Rightarrow> None
      | Some (Inl e) \<Rightarrow> Some (Inl e)
      | Some (Inr (p, s1)) \<Rightarrow>
          let new_block = p - header_size s1;
              min_size = (if size_of s1 new_block < size_of s1 block
                          then size_of s1 new_block else size_of s1 block);
              s2 = s1\<lparr>mem := copy_loop (new_block + header_size s1) (block + header_size s1)
                                min_size (mem s1)\<rparr>;
              s3 = os_free (block + header_size s2) s2
          in Some (Inr (new_block + header_size s3, s3)))"

text \<open>
  The merging loop of \<^verbatim>\<open>os_realloc\<close>. The flag of the result tells whether the loop left
  through its \<^verbatim>\<open>return ptr\<close>.
\<close>

partial_function (option) realloc_loop :: "addr \<Rightarrow> addr \<Rightarrow> size_t \<Rightarrow> state \<Rightarrow> (bool \<times> state) option" where
  "realloc_loop block next_block size0 s =
     (if next_block \<noteq> 0 \<and> status_of s next_block = STATUS_FREE then
        (let s1 = merge block next_block s in
         if size_of s1 block \<ge> size0 then Some (True, split block (header_size s1 + size0) s1)
         else realloc_loop block (next_of s1 block) size0 s1)
      else Some (False, s))"

definition os_realloc :: "addr \<Rightarrow> size_t \<Rightarrow> state \<Rightarrow> (error + (addr \<times> state)) option" where
  "os_realloc ptr size0 s =
     (let size = aligned_size size0 in
      if size = 0 then Some (Inr (0, os_free ptr s))
      else if ptr = 0 then os_malloc size s
      else
        let block = ptr - header_size s in
        if status_of s block = STATUS_FREE then Some (Inr (0, s))
        else if status_of s block = STATUS_MAPPED then relocate_mem block size s
        else if size = size_of s block then Some (Inr (ptr, s))
        else if size < size_of s block then Some (Inr (ptr, split block (size + header_size s) s))
        else if next_of s block = 0 then
          (let s1 = brk (ptr + size) s in Some (Inr (ptr, set_size block size s1)))
        else
          (case realloc_loop block (next_of s block) size s of
             None \<Rightarrow> None
           | Some (True, s1) \<Rightarrow> Some (Inr (ptr, s1))
           | Some (False, s1) \<Rightarrow> relocate_mem block size s1))"

section \<open>Heap list and reference states\<close>

text \<open>
  \<open>path s a xs\<close>: following the \<open>next\<close> links from \<open>a\<close> visits exactly the blocks \<open>xs\<close>, none
  of them null, and then reaches the null pointer.
\<close>

fun path :: "state \<Rightarrow> addr \<Rightarrow> addr list \<Rightarrow> bool" where
  "path s a [] = (a = 0)"
| "path s a (x # xs) = (a = x \<and> a \<noteq> 0 \<and> path s (next_of s a) xs)"

text \<open>\<open>only_meta s s'\<close>: the two states differ in the block headers at most.\<close>

definition only_meta :: "state \<Rightarrow> state \<Rightarrow> bool" where
  "only_meta s s' = (s' = s\<lparr>meta := meta s'\<rparr>)"

text \<open>
  The state of a process that has not called the allocator yet: the globals as
  \<^verbatim>\<open>osmem.c\<close> initialises them, a break at \<open>0x10000000\<close>, pages of 4096 bytes.
\<close>

definition init_state :: state where
  "init_state =
     \<lparr>heap_start = 0, header_size = 32, pagesize = 0, program_break = 0x10000000,
      sys_pagesize = 4096, map_next = 0x7f0000000000, maps = [],
      meta = (\<lambda>_. \<lparr>bm_size = 0, bm_status = STATUS_FREE, bm_prev = 0, bm_next = 0\<rparr>),
      mem = (\<lambda>_. 0)\<rparr>"

text \<open>The state after \<^verbatim>\<open>os_malloc(64)\<close> from \<open>init_state\<close>: the preallocated block, unsplit.\<close>

definition one_block :: state where
  "one_block =
     init_state\<lparr>heap_start := 0x10000000, program_break := 0x10020000,
       meta := (meta init_state)
         (0x10000000 := \<lparr>bm_size = 131040, bm_status = STATUS_ALLOC,
                          bm_prev = 0, bm_next = 0\<rparr>)\<rparr>"

text \<open>The state after \<^verbatim>\<open>os_malloc(200000)\<close> from \<open>init_state\<close>: one mapping of 49 pages.\<close>

definition mapped_state :: state where
  "mapped_state =
     init_state\<lparr>map_next := 0x7f0000031000, maps := [(0x7f0000000000, 200032)],
       meta := (meta init_state)
         (0x7f0000000000 := \<lparr>bm_size = 200000, bm_status = STATUS_MAPPED,
                              bm_prev = 0, bm_next = 0\<rparr>)\<rparr>"

text \<open>The state after \<^verbatim>\<open>os_malloc(64)\<close> and \<^verbatim>\<open>os_free\<close> of its result from \<open>init_state\<close>.\<close>

definition one_free :: state where
  "one_free =
     init_state\<lparr>heap_start := 0x10000000, program_break := 0x10020000,
       meta := (meta init_state)
         (0x10000000 := \<lparr>bm_size = 131040, bm_status = STATUS_FREE,
                          bm_prev = 0, bm_next = 0\<rparr>)\<rparr>"

text \<open>The state after a further \<^verbatim>\<open>os_malloc(8)\<close>: the block is split.\<close>

definition small_block :: state where
  "small_block =
     init_state\<lparr>heap_start := 0x10000000, program_break := 0x10020000,
       meta := (meta init_state)
         (0x10000000 := \<lparr>bm_size = 8, bm_status = STATUS_ALLOC,
                          bm_prev = 0, bm_next = 0x10000028\<rparr>,
          0x10000028 := \<lparr>bm_size = 131000, bm_status = STATUS_FREE,
                          bm_prev = 0x10000000, bm_next = 0\<rparr>)\<rparr>"

text \<open>
  The program that owns the memory stores bytes into it. \<open>dirty_state\<close> is the state after
  \<^verbatim>\<open>p = os_malloc(64); q = os_calloc(16, 2^60 + 1); q[8] = 0xFF; os_realloc(p, 131048)\<close>
  from \<open>init_state\<close>: the product of the second call wraps around to 16, its block of 48
  bytes comes from \<^verbatim>\<open>sbrk\<close> and is not linked into the list, and the last call, which finds
  no successor of the first block, sets the program break to the new end of that block,
  below the byte stored through \<open>q\<close>.
\<close>

definition user_write :: "addr \<Rightarrow> 8 word \<Rightarrow> state \<Rightarrow> state" where
  "user_write a v s = s\<lparr>mem := (mem s)(a := v)\<rparr>"

definition dirty_state :: state where
  "dirty_state =
     init_state\<lparr>heap_start := 0x10000000, pagesize := 4096, program_break := 0x10020008,
       meta := (meta init_state)
         (0x10000000 := \<lparr>bm_size = 131048, bm_status = STATUS_ALLOC,
                          bm_prev = 0, bm_next = 0\<rparr>,
          0x10020000 := \<lparr>bm_size = 16, bm_status = STATUS_ALLOC,
                          bm_prev = 0, bm_next = 0\<rparr>),
       mem := (mem init_state)(0x10020028 := 0xFF)\<rparr>"

text \<open>
  The state after \<^verbatim>\<open>os_malloc(64); q = os_malloc(4056); os_free(q)\<close> from \<open>init_state\<close>: the
  last block is FREE and ends 8 bytes before the end of a page.
\<close>

definition page_end_state :: state where
  "page_end_state =
     init_state\<lparr>heap_start := 0x10000000, program_break := 0x10020FF8,
       meta := (meta init_state)
         (0x10000000 := \<lparr>bm_size = 131040, bm_status = STATUS_ALLOC,
                          bm_prev = 0, bm_next = 0x10020000\<rparr>,
          0x10020000 := \<lparr>bm_size = 4056, bm_status = STATUS_FREE,
                          bm_prev = 0x10000000, bm_next = 0\<rparr>)\<rparr>"

text \<open>The heap after \<^verbatim>\<open>os_malloc(64); os_malloc(64)\<close> from \<open>init_state\<close>.\<close>

definition two_blocks :: state where
  "two_blocks =
     init_state\<lparr>heap_start := 0x10000000, program_break := 0x10020060,
       meta := (meta init_state)
         (0x10000000 := \<lparr>bm_size = 131040, bm_status = STATUS_ALLOC,
                          bm_prev = 0, bm_next = 0x10020000\<rparr>,
          0x10020000 := \<lparr>bm_size = 64, bm_status = STATUS_ALLOC,
                          bm_prev = 0x10000000, bm_next = 0\<rparr>)\<rparr>"


section \<open>Best fit, in the words of the specification\<close>

text \<open>
  A candidate for a request of \<open>total_bytes\<close> is a FREE block whose size with the header
  reaches the request. \<open>pick\<close> is one step of the search: a candidate replaces the best
  block so far when there is none or when it is strictly smaller.
\<close>

definition candidate :: "state \<Rightarrow> size_t \<Rightarrow> addr \<Rightarrow> bool" where
  "candidate s total_bytes b =
     (status_of s b = STATUS_FREE \<and> total_bytes \<le> header_size s + size_of s b)"

definition pick :: "state \<Rightarrow> size_t \<Rightarrow> addr \<Rightarrow> addr \<Rightarrow> addr" where
  "pick s bytes best b =
     (if candidate s bytes b
      then (if best = 0 \<or> size_of s b < size_of s best then b else best)
      else best)"


text \<open>
  The blocks of the heap list lie one behind the other: a block ends, after its header and
  its payload, where the next one starts. \<open>block_end s b\<close> is that end, computed without
  wrap-around; \<open>tiles s xs a e\<close> says that the blocks \<open>xs\<close>, in this order, fill the range
  from \<open>a\<close> to \<open>e\<close> exactly. \<open>heap_ok s xs\<close>: the heap list of \<open>s\<close> is \<open>xs\<close>, it is not empty,
  its blocks fill the range from \<open>heap_start\<close> to the program break, and \<open>header_size\<close> has
  room for a \<^verbatim>\<open>struct block_meta\<close>. On such a heap no two headers of the list overlap and
  every header lies inside the data segment.
\<close>

definition block_end :: "state \<Rightarrow> addr \<Rightarrow> nat" where
  "block_end s b = unat b + unat (header_size s) + unat (size_of s b)"

fun tiles :: "state \<Rightarrow> addr list \<Rightarrow> nat \<Rightarrow> nat \<Rightarrow> bool" where
  "tiles s [] a e = (a = e)"
| "tiles s (x # xs) a e = (unat x = a \<and> tiles s xs (block_end s x) e)"

definition heap_ok :: "state \<Rightarrow> addr list \<Rightarrow> bool" where
  "heap_ok s xs =
     (xs \<noteq> [] \<and> path s (heap_start s) xs
      \<and> tiles s xs (unat (heap_start s)) (unat (program_break s))
      \<and> sizeof_block_meta \<le> header_size s)"

section \<open>Basic facts\<close>

lemmas model_defs =
  os_malloc_def os_free_def os_calloc_def os_realloc_def relocate_mem_def
  prealloc_def alloc_block_def alloc_block_with_zeros_def fill_with_zeros_def
  split_def merge_def find_best_block_def coalesce_blocks_def
  sbrk_def brk_def mmap_def munmap_def getpagesize_def accessible_def page_up_def
  set_size_def set_status_def set_prev_def set_next_def aligned_size_def
  MMAP_THRESHOLD_def INIT_MEM_ALLOC_def INT_MAX_def sizeof_block_meta_def page_round_def

lemmas loop_simps = coalesce_loop.simps find_best_loop.simps last_block.simps realloc_loop.simps

subsection \<open>Alignment\<close>

lemma word_mult8_mod8: "(8 * y :: 64 word) mod 8 = 0"
proof -
  have d: "(8::nat) dvd 2 ^ 64" by simp
  have "unat ((8 * y) mod 8) = unat (8 * y) mod 8"
    by (simp add: unat_mod_distrib)
  also have "\<dots> = ((8 * unat y) mod 2 ^ 64) mod 8"
    by (simp add: unat_word_ariths)
  also have "\<dots> = (8 * unat y) mod 8"
    using d by (rule mod_mod_cancel)
  also have "\<dots> = 0" by simp
  finally show ?thesis by (simp add: unat_eq_zero)
qed

lemma aligned_size_mod8: "aligned_size x mod 8 = 0"
proof (cases "x mod 8 = 0")
  case True
  then show ?thesis by (simp add: aligned_size_def)
next
  case False
  have a: "x - x mod 8 = 8 * (x div 8)"
    by (simp add: minus_mod_eq_mult_div)
  have "x + 8 - x mod 8 = (x - x mod 8) + 8"
    by simp
  also have "\<dots> = 8 * (x div 8 + 1)"
    unfolding a by (simp add: distrib_left)
  finally have "(x + 8 - x mod 8) mod 8 = 0"
    by (simp only: word_mult8_mod8)
  with False show ?thesis by (simp add: aligned_size_def)
qed

lemma aligned_size_idem: "aligned_size (aligned_size x) = aligned_size x"
  using aligned_size_mod8 [of x] by (simp add: aligned_size_def [of "aligned_size x"])

subsection \<open>Header accessors\<close>

lemma only_meta_refl: "only_meta s s"
  by (simp add: only_meta_def)

lemma only_meta_trans: "only_meta s s' \<Longrightarrow> only_meta s' s'' \<Longrightarrow> only_meta s s''"
proof -
  assume a: "only_meta s s'" and b: "only_meta s' s''"
  from b have "s'' = s'\<lparr>meta := meta s''\<rparr>" by (simp add: only_meta_def)
  also from a have "s' = s\<lparr>meta := meta s'\<rparr>" by (simp add: only_meta_def)
  finally show ?thesis by (simp add: only_meta_def)
qed

lemma only_meta_fields:
  "only_meta s s' \<Longrightarrow>
     heap_start s' = heap_start s \<and> header_size s' = header_size s \<and> pagesize s' = pagesize s
     \<and> program_break s' = program_break s \<and> sys_pagesize s' = sys_pagesize s
     \<and> map_next s' = map_next s \<and> maps s' = maps s \<and> mem s' = mem s"
proof -
  assume "only_meta s s'"
  then have e: "s' = s\<lparr>meta := meta s'\<rparr>" by (simp add: only_meta_def)
  show ?thesis
    using arg_cong [OF e, of heap_start] arg_cong [OF e, of header_size]
      arg_cong [OF e, of pagesize] arg_cong [OF e, of program_break]
      arg_cong [OF e, of sys_pagesize] arg_cong [OF e, of map_next]
      arg_cong [OF e, of maps] arg_cong [OF e, of mem]
    by simp
qed

lemma next_of_setters:
  "next_of (set_size b v s) c = next_of s c"
  "next_of (set_status b w s) c = next_of s c"
  "next_of (set_prev b u s) c = next_of s c"
  "next_of (set_next b u s) c = (if c = b then u else next_of s c)"
  by (simp_all add: set_size_def set_status_def set_prev_def set_next_def)

lemma size_of_setters:
  "size_of (set_size b v s) c = (if c = b then v else size_of s c)"
  "size_of (set_status b w s) c = size_of s c"
  "size_of (set_prev b u s) c = size_of s c"
  "size_of (set_next b u s) c = size_of s c"
  by (simp_all add: set_size_def set_status_def set_prev_def set_next_def)

lemma status_of_setters:
  "status_of (set_size b v s) c = status_of s c"
  "status_of (set_status b w s) c = (if c = b then w else status_of s c)"
  "status_of (set_prev b u s) c = status_of s c"
  "status_of (set_next b u s) c = status_of s c"
  by (simp_all add: set_size_def set_status_def set_prev_def set_next_def)

lemma prev_of_setters:
  "prev_of (set_size b v s) c = prev_of s c"
  "prev_of (set_status b w s) c = prev_of s c"
  "prev_of (set_prev b u s) c = (if c = b then u else prev_of s c)"
  "prev_of (set_next b u s) c = prev_of s c"
  by (simp_all add: set_size_def set_status_def set_prev_def set_next_def)

lemma globals_setters:
  "header_size (set_size b v s) = header_size s" "header_size (set_status b w s) = header_size s"
  "header_size (set_prev b u s) = header_size s" "header_size (set_next b u s) = header_size s"
  "heap_start (set_size b v s) = heap_start s" "heap_start (set_status b w s) = heap_start s"
  "heap_start (set_prev b u s) = heap_start s" "heap_start (set_next b u s) = heap_start s"
  "program_break (set_size b v s) = program_break s"
  "program_break (set_status b w s) = program_break s"
  "program_break (set_prev b u s) = program_break s"
  "program_break (set_next b u s) = program_break s"
  "pagesize (set_size b v s) = pagesize s" "pagesize (set_status b w s) = pagesize s"
  "pagesize (set_prev b u s) = pagesize s" "pagesize (set_next b u s) = pagesize s"
  "maps (set_size b v s) = maps s" "maps (set_status b w s) = maps s"
  "maps (set_prev b u s) = maps s" "maps (set_next b u s) = maps s"
  "mem (set_size b v s) = mem s" "mem (set_status b w s) = mem s"
  "mem (set_prev b u s) = mem s" "mem (set_next b u s) = mem s"
  "sys_pagesize (set_size b v s) = sys_pagesize s"
  "sys_pagesize (set_status b w s) = sys_pagesize s"
  "sys_pagesize (set_prev b u s) = sys_pagesize s"
  "sys_pagesize (set_next b u s) = sys_pagesize s"
  "map_next (set_size b v s) = map_next s" "map_next (set_status b w s) = map_next s"
  "map_next (set_prev b u s) = map_next s" "map_next (set_next b u s) = map_next s"
  by (simp_all add: set_size_def set_status_def set_prev_def set_next_def)

lemma meta_setters:
  "meta (set_size b v s) c = (if c = b then (meta s b)\<lparr>bm_size := v\<rparr> else meta s c)"
  "meta (set_status b w s) c = (if c = b then (meta s b)\<lparr>bm_status := w\<rparr> else meta s c)"
  "meta (set_prev b u s) c = (if c = b then (meta s b)\<lparr>bm_prev := u\<rparr> else meta s c)"
  "meta (set_next b u s) c = (if c = b then (meta s b)\<lparr>bm_next := u\<rparr> else meta s c)"
  by (simp_all add: set_size_def set_status_def set_prev_def set_next_def)

lemmas setter_simps =
  next_of_setters size_of_setters status_of_setters prev_of_setters globals_setters

text \<open>
  The rules that run the model on a concrete state: the definitions of the operations,
  with the header accessors kept folded and answered by the rules above.
\<close>

lemmas eval_defs =
  os_malloc_def os_free_def os_calloc_def os_realloc_def relocate_mem_def
  prealloc_def alloc_block_def alloc_block_with_zeros_def fill_with_zeros_def
  split_def merge_def find_best_block_def coalesce_blocks_def
  sbrk_def brk_def mmap_def munmap_def getpagesize_def accessible_def page_up_def
  aligned_size_def
  MMAP_THRESHOLD_def INIT_MEM_ALLOC_def INT_MAX_def sizeof_block_meta_def page_round_def
  setter_simps Let_def

subsection \<open>The reference states are reachable\<close>

text \<open>The two products used below, reduced modulo \<open>2^64\<close>.\<close>

lemma wrapped_products:
  "(16 * 0x1000000000000001 :: size_t) = 16"
  "(8 * 0x2000000000000001 :: size_t) = 8"
  "(0x2000000000000001 * 8 :: size_t) = 8"
  "(18446744073709551632 :: size_t) = 16"
  "(18446744073709551624 :: size_t) = 8"
  by simp_all

lemma one_block_reachable:
  "os_malloc 64 init_state = Some (Inr (0x10000020, one_block))"
  by (simp add: model_defs init_state_def one_block_def Let_def)

lemma two_blocks_reachable:
  "os_malloc 64 one_block = Some (Inr (0x10020020, two_blocks))"
  by (simp add: model_defs loop_simps init_state_def one_block_def two_blocks_def Let_def
        fun_upd_twist)

lemma mapped_state_reachable:
  "os_malloc 200000 init_state = Some (Inr (0x7f0000000020, mapped_state))"
  by (simp add: model_defs init_state_def mapped_state_def Let_def cong: if_cong)

lemma page_end_state_reachable:
  "case os_malloc 4056 one_block of
     Some (Inr (q, s2)) \<Rightarrow> q = 0x10020020 \<and> os_free q s2 = page_end_state
   | _ \<Rightarrow> False"
  by (simp add: model_defs loop_simps one_block_def page_end_state_def init_state_def Let_def
        fun_upd_twist)

lemma one_free_reachable: "os_free 0x10000020 one_block = one_free"
  by (simp add: model_defs one_block_def one_free_def init_state_def Let_def)

lemma small_block_reachable:
  "os_malloc 8 one_free = Some (Inr (0x10000020, small_block))"
  by (simp add: model_defs loop_simps one_free_def small_block_def init_state_def Let_def
        fun_upd_twist)

lemma dirty_state_reachable:
  "case os_calloc 16 0x1000000000000001 one_block of
     Some (Inr (q, s2)) \<Rightarrow>
       q = 0x10020020
       \<and> os_realloc 0x10000020 131048 (user_write (q + 8) 0xFF s2) =
            Some (Inr (0x10000020, dirty_state))
   | _ \<Rightarrow> False"
  by (simp add: model_defs user_write_def one_block_def dirty_state_def init_state_def Let_def
        fun_upd_twist wrapped_products)

section \<open>Lists of blocks\<close>

lemma path_nonzero: "path s a xs \<Longrightarrow> 0 \<notin> set xs"
  by (induction xs arbitrary: a) auto

lemma path_next_cong:
  "\<forall>x\<in>set xs. next_of s' x = next_of s x \<Longrightarrow> path s a xs \<Longrightarrow> path s' a xs"
  by (induction xs arbitrary: a) auto

lemma path_unique: "path s a xs \<Longrightarrow> path s a ys \<Longrightarrow> xs = ys"
proof (induction xs arbitrary: a ys)
  case Nil
  then show ?case by (cases ys) auto
next
  case (Cons x xs)
  then show ?case by (cases ys) auto
qed

lemma path_suffix: "path s a (pre @ x # post) \<Longrightarrow> path s x (x # post)"
  by (induction pre arbitrary: a) auto

lemma path_distinct: "path s a xs \<Longrightarrow> distinct xs"
proof (induction xs arbitrary: a)
  case Nil
  then show ?case by simp
next
  case (Cons x xs)
  then have p: "path s (next_of s x) xs" and ax: "a = x" by auto
  have "x \<notin> set xs"
  proof
    assume "x \<in> set xs"
    then obtain pre post where xs: "xs = pre @ x # post"
      by (auto simp: in_set_conv_decomp)
    with p have "path s x (x # post)" by (auto dest: path_suffix)
    moreover from Cons.prems ax have "path s x (x # xs)" by simp
    ultimately have "x # post = x # xs" by (rule path_unique)
    with xs show False by simp
  qed
  with Cons.IH [OF p] show ?case by simp
qed

lemma last_block_path: "path s a xs \<Longrightarrow> a \<noteq> 0 \<Longrightarrow> last_block a s = Some (last xs)"
proof (induction xs arbitrary: a)
  case Nil
  then show ?case by simp
next
  case (Cons x xs)
  from Cons.prems have ax: "a = x" and p: "path s (next_of s a) xs" by auto
  show ?case
  proof (cases "next_of s a = 0")
    case True
    with p have "xs = []" by (cases xs) simp_all
    with True ax show ?thesis by (subst last_block.simps) simp
  next
    case False
    with p have "xs \<noteq> []" by (cases xs) simp_all
    with Cons.IH [OF p False] False ax show ?thesis
      by (subst last_block.simps) simp
  qed
qed

lemma merge_only_meta: "only_meta s (merge a b s)"
  by (simp add: only_meta_def merge_def Let_def set_size_def set_prev_def set_next_def)

lemma merge_next_other: "c \<noteq> a \<Longrightarrow> next_of (merge a b s) c = next_of s c"
  by (simp add: merge_def Let_def setter_simps)

lemma merge_next_first: "next_of (merge a b s) a = next_of s (next_of s a)"
  by (simp add: merge_def Let_def setter_simps)

lemma coalesce_loop_terminates:
  "path s a xs \<Longrightarrow> a \<noteq> 0 \<Longrightarrow>
   \<exists>s' ys. coalesce_loop a s = Some s' \<and> path s' a ys \<and> ys \<noteq> [] \<and> only_meta s s'
     \<and> (\<forall>c. c \<notin> set xs \<longrightarrow> next_of s' c = next_of s c)"
proof (induction "length xs" arbitrary: xs a s rule: less_induct)
  case less
  from less.prems obtain rest where xs: "xs = a # rest" and p: "path s (next_of s a) rest"
    by (cases xs) auto
  show ?case
  proof (cases "next_of s a = 0")
    case True
    with p have "rest = []" by (cases rest) simp_all
    with True xs less.prems have "coalesce_loop a s = Some s \<and> path s a [a] \<and> only_meta s s"
      by (subst coalesce_loop.simps) (simp add: only_meta_refl)
    then show ?thesis by blast
  next
    case False
    with p obtain b rest' where rest: "rest = b # rest'" and b: "b = next_of s a" "b \<noteq> 0"
      and p': "path s (next_of s b) rest'"
      by (cases rest) auto
    have d: "distinct xs" using less.prems(1) by (rule path_distinct)
    show ?thesis
    proof (cases "status_of s a = STATUS_FREE \<and> status_of s b = STATUS_FREE")
      case True
      let ?s2 = "merge a b s"
      have step: "coalesce_loop a s = coalesce_loop a ?s2"
        using True False b by (subst coalesce_loop.simps) simp
      have "\<forall>x\<in>set rest'. x \<noteq> a"
        using d xs rest by auto
      then have "\<forall>x\<in>set rest'. next_of ?s2 x = next_of s x"
        by (simp add: merge_next_other)
      then have "path ?s2 (next_of s b) rest'" using p' by (rule path_next_cong)
      then have p2: "path ?s2 a (a # rest')"
        using less.prems(2) b by (simp add: merge_next_first)
      have "length (a # rest') < length xs" using xs rest by simp
      from less.hyps [OF this p2 less.prems(2)]
      obtain s' ys where r: "coalesce_loop a ?s2 = Some s'" "path s' a ys" "ys \<noteq> []"
        "only_meta ?s2 s'" "\<forall>c. c \<notin> set (a # rest') \<longrightarrow> next_of s' c = next_of ?s2 c"
        by blast
      have "only_meta s s'" using merge_only_meta r(4) by (rule only_meta_trans)
      moreover have "\<forall>c. c \<notin> set xs \<longrightarrow> next_of s' c = next_of s c"
        using r(5) xs rest by (auto simp: merge_next_other)
      moreover have "coalesce_loop a s = Some s'" using step r(1) by simp
      ultimately show ?thesis using r(2,3) by blast
    next
      case nf: False
      have step: "coalesce_loop a s = coalesce_loop b s"
        using nf False b by (subst coalesce_loop.simps) auto
      have pb: "path s b rest" using p b by simp
      have "length rest < length xs" using xs by simp
      from less.hyps [OF this pb b(2)]
      obtain s' ys where r: "coalesce_loop b s = Some s'" "path s' b ys" "ys \<noteq> []"
        "only_meta s s'" "\<forall>c. c \<notin> set rest \<longrightarrow> next_of s' c = next_of s c"
        by blast
      have "a \<notin> set rest" using d xs by simp
      with r(5) have "next_of s' a = b" using b by simp
      with r(2) less.prems(2) have "path s' a (a # ys) \<and> a # ys \<noteq> []" by simp
      moreover have "\<forall>c. c \<notin> set xs \<longrightarrow> next_of s' c = next_of s c"
        using r(5) xs by simp
      moreover have "coalesce_loop a s = Some s'" using step r(1) by simp
      ultimately show ?thesis using r(4) by blast
    qed
  qed
qed

section \<open>Best fit\<close>

lemma find_best_loop_step:
  "find_best_loop a best bytes s =
     (if next_of s a = 0 then Some (pick s bytes best a)
      else find_best_loop (next_of s a) (pick s bytes best a) bytes s)"
  by (subst find_best_loop.simps) (simp add: pick_def candidate_def Let_def add.commute)

lemma find_best_loop_fold:
  "path s a xs \<Longrightarrow> a \<noteq> 0 \<Longrightarrow> find_best_loop a best bytes s = Some (foldl (pick s bytes) best xs)"
proof (induction xs arbitrary: a best)
  case Nil
  then show ?case by simp
next
  case (Cons x xs)
  from Cons.prems have ax: "a = x" and p: "path s (next_of s a) xs" by auto
  show ?case
  proof (cases "next_of s a = 0")
    case True
    with p have "xs = []" by (cases xs) simp_all
    with True ax show ?thesis
      by (subst find_best_loop_step) simp
  next
    case False
    from Cons.IH [OF p False]
    have "find_best_loop (next_of s a) (pick s bytes best a) bytes s
            = Some (foldl (pick s bytes) (pick s bytes best a) xs)" .
    with False ax show ?thesis
      by (subst find_best_loop_step) simp
  qed
qed

lemma pick_fold_none:
  "0 \<notin> set xs \<Longrightarrow> (foldl (pick s bytes) 0 xs = 0) = (\<forall>x\<in>set xs. \<not> candidate s bytes x)"
proof (induction xs rule: rev_induct)
  case Nil
  then show ?case by simp
next
  case (snoc x xs)
  then show ?case by (auto simp: pick_def)
qed

lemma pick_fold_best:
  "0 \<notin> set xs \<Longrightarrow> foldl (pick s bytes) 0 xs = b \<Longrightarrow> b \<noteq> 0 \<Longrightarrow>
   \<exists>pre post. xs = pre @ b # post \<and> candidate s bytes b
     \<and> (\<forall>x\<in>set pre. candidate s bytes x \<longrightarrow> size_of s b < size_of s x)
     \<and> (\<forall>x\<in>set post. candidate s bytes x \<longrightarrow> size_of s b \<le> size_of s x)"
proof (induction xs arbitrary: b rule: rev_induct)
  case Nil
  then show ?case by simp
next
  case (snoc x xs)
  let ?r = "foldl (pick s bytes) 0 xs"
  from snoc.prems have nz: "0 \<notin> set xs" and b: "b = pick s bytes ?r x" by simp_all
  show ?case
  proof (cases "b = ?r")
    case True
    with snoc.IH [OF nz refl] snoc.prems(3)
    obtain pre post where pp: "xs = pre @ b # post" "candidate s bytes b"
      "\<forall>x\<in>set pre. candidate s bytes x \<longrightarrow> size_of s b < size_of s x"
      "\<forall>x\<in>set post. candidate s bytes x \<longrightarrow> size_of s b \<le> size_of s x"
      by blast
    have "candidate s bytes x \<longrightarrow> size_of s b \<le> size_of s x"
      using b True snoc.prems(3) by (auto simp: pick_def split: if_splits)
    with pp have "xs @ [x] = pre @ b # (post @ [x]) \<and> candidate s bytes b
       \<and> (\<forall>x\<in>set pre. candidate s bytes x \<longrightarrow> size_of s b < size_of s x)
       \<and> (\<forall>y\<in>set (post @ [x]). candidate s bytes y \<longrightarrow> size_of s b \<le> size_of s y)"
      by auto
    then show ?thesis by blast
  next
    case False
    with b have bx: "b = x" and cx: "candidate s bytes x"
      and lt: "?r = 0 \<or> size_of s x < size_of s ?r"
      by (auto simp: pick_def split: if_splits)
    have "\<forall>y\<in>set xs. candidate s bytes y \<longrightarrow> size_of s b < size_of s y"
    proof (cases "?r = 0")
      case True
      with pick_fold_none [OF nz, of s bytes] show ?thesis by simp
    next
      case r: False
      with snoc.IH [OF nz refl]
      obtain pre post where pp: "xs = pre @ ?r # post"
        "\<forall>x\<in>set pre. candidate s bytes x \<longrightarrow> size_of s ?r < size_of s x"
        "\<forall>x\<in>set post. candidate s bytes x \<longrightarrow> size_of s ?r \<le> size_of s x"
        by blast
      from r lt bx have l: "size_of s b < size_of s ?r" by simp
      have "set xs = set pre \<union> {?r} \<union> set post"
        by (subst pp(1)) auto
      with pp(2,3) l show ?thesis by fastforce
    qed
    with bx cx have "xs @ [x] = xs @ b # [] \<and> candidate s bytes b
       \<and> (\<forall>y\<in>set xs. candidate s bytes y \<longrightarrow> size_of s b < size_of s y)
       \<and> (\<forall>y\<in>set []. candidate s bytes y \<longrightarrow> size_of s b \<le> size_of s y)"
      by simp
    then show ?thesis by blast
  qed
qed

lemma find_best_block_none:
  assumes "path s a xs" and "a \<noteq> 0" and "\<forall>x\<in>set xs. \<not> candidate s bytes x"
  shows "find_best_block a bytes s = Some (0, s)"
proof -
  have "0 \<notin> set xs" using assms(1) by (rule path_nonzero)
  with assms(3) have "foldl (pick s bytes) 0 xs = 0" by (simp add: pick_fold_none)
  with find_best_loop_fold [OF assms(1,2), of 0 bytes] show ?thesis
    by (simp add: find_best_block_def)
qed

lemma find_best_block_cases:
  assumes "path s a xs" and "a \<noteq> 0"
  shows "(find_best_block a bytes s = Some (0, s) \<and> (\<forall>x\<in>set xs. \<not> candidate s bytes x))
       \<or> (\<exists>b. b \<noteq> 0 \<and> find_best_block a bytes s = Some (b, set_status b STATUS_ALLOC (split b bytes s)))"
proof -
  let ?r = "foldl (pick s bytes) 0 xs"
  have nz: "0 \<notin> set xs" using assms(1) by (rule path_nonzero)
  have loop: "find_best_loop a 0 bytes s = Some ?r"
    using assms by (rule find_best_loop_fold)
  show ?thesis
  proof (cases "?r = 0")
    case True
    with pick_fold_none [OF nz, of s bytes] loop show ?thesis
      by (simp add: find_best_block_def)
  next
    case False
    with loop show ?thesis by (simp add: find_best_block_def)
  qed
qed

section \<open>Splitting and growing\<close>



lemma split_effect:
  assumes "header_size s < header_size s + size_of s block - bytes"
    and "bytes \<noteq> 0"
    and "next_of s block = 0 \<or> (next_of s block \<noteq> block \<and> next_of s block \<noteq> block + bytes)"
  shows "split block bytes s =
        s\<lparr>meta :=
            (let m = (meta s)
                  (block + bytes :=
                     \<lparr>bm_size = size_of s block - bytes, bm_status = STATUS_FREE,
                      bm_prev = block, bm_next = next_of s block\<rparr>,
                   block := (meta s block)\<lparr>bm_size := bytes - header_size s,
                                            bm_next := block + bytes\<rparr>)
             in if next_of s block \<noteq> 0
                then m(next_of s block := (meta s (next_of s block))\<lparr>bm_prev := block + bytes\<rparr>)
                else m)\<rparr>"
proof -
  from assms(1) have c: "\<not> header_size s + size_of s block - bytes \<le> header_size s"
    by (simp only: not_le)
  show ?thesis
    using assms(2,3) c
    by (cases "next_of s block = 0")
       (simp_all add: split_def Let_def set_size_def set_status_def set_prev_def set_next_def
          fun_eq_iff)
qed

text \<open>
  The test of \<^verbatim>\<open>split\<close> in unsigned arithmetic: as long as the request does not exceed the
  block with its header, and the block does not wrap around the address space, the test
  lets the split happen exactly when the payload is strictly larger than the request.
\<close>

lemma split_cond_iff:
  assumes "unat bytes \<le> unat sz + unat hs" "unat sz + unat hs < 2 ^ 64"
  shows "(hs < hs + sz - bytes) = (bytes < (sz :: 64 word))"
proof -
  have a: "unat (hs + sz) = unat hs + unat sz"
    using assms(2) by (simp add: unat_word_ariths)
  have "bytes \<le> hs + sz"
    using assms(1) a by (simp add: word_le_nat_alt)
  then have "unat (hs + sz - bytes) = unat hs + unat sz - unat bytes"
    using a by (simp add: unat_sub)
  then show ?thesis
    using assms(1) by (auto simp: word_less_nat_alt)
qed

lemma word_diff_le_bound: "\<not> y \<le> x \<Longrightarrow> y \<le> K \<Longrightarrow> y - x \<le> (K :: 64 word)"
proof -
  assume a: "\<not> y \<le> x" and b: "y \<le> K"
  from a have "x \<le> y" by simp
  then have "y - x \<le> y" by (rule word_sub_le)
  with b show ?thesis by simp
qed

lemma alloc_block_sbrk:
  assumes "\<not> threshold < bytes" and "program_break s \<noteq> 0"
    and "accessible (s\<lparr>program_break := program_break s + bytes\<rparr>) (program_break s)
           (unat sizeof_block_meta)"
  shows "alloc_block prev_block bytes threshold s =
     Inr (program_break s,
          set_next (program_break s) 0
            ((if prev_block \<noteq> 0 then set_next prev_block (program_break s) else id)
               (set_prev (program_break s) prev_block
                  (set_size (program_break s) (bytes - header_size s)
                     (set_status (program_break s) STATUS_ALLOC
                        (s\<lparr>program_break := program_break s + bytes\<rparr>))))))"
  using assms by (simp add: alloc_block_def sbrk_def Let_def setter_simps)

text \<open>
  Growth at a FREE tail, where the header that \<^verbatim>\<open>alloc_block\<close> stores fits into accessible
  memory. Take a heap whose list the \<open>next\<close> links end, and a request that stays below the
  mapping threshold. The coalescing pass of \<^verbatim>\<open>os_malloc\<close> ends, in a state \<open>s1\<close> that differs
  from the old one in block headers only and still has such a list. If that list holds
  no candidate for the request, its last block is FREE and the header stored at the old
  program break is accessible after the growth, then \<^verbatim>\<open>os_malloc\<close> returns the
  payload of that last block, the program break has moved up by exactly the aligned
  request minus the old size of the last block, no mapping was made, and the last block
  is ALLOC, has the aligned request as its size and still ends the list; if the last
  block ended at the program break before, it does so afterwards.
\<close>

lemma os_malloc_tail_growth_fits:
  assumes "path s (heap_start s) xs" and "heap_start s \<noteq> 0"
    and "aligned_size n \<noteq> 0" and "aligned_size n + header_size s \<le> MMAP_THRESHOLD"
  shows "\<exists>s1 ys. coalesce_blocks (heap_start s) s = Some s1 \<and> s1 = s\<lparr>meta := meta s1\<rparr>
           \<and> path s1 (heap_start s) ys \<and> ys \<noteq> []
           \<and> ((\<forall>x\<in>set ys. \<not> candidate s1 (aligned_size n + header_size s) x)
                \<and> status_of s1 (last ys) = STATUS_FREE
                \<and> program_break s \<noteq> 0 \<and> program_break s \<noteq> last ys
                \<and> accessible
                     (s\<lparr>program_break :=
                          program_break s + (aligned_size n - size_of s1 (last ys))\<rparr>)
                     (program_break s) (unat sizeof_block_meta) \<longrightarrow>
               (\<exists>s'. os_malloc n s = Some (Inr (last ys + header_size s, s'))
                  \<and> program_break s' = program_break s + (aligned_size n - size_of s1 (last ys))
                  \<and> size_of s' (last ys) = aligned_size n
                  \<and> status_of s' (last ys) = STATUS_ALLOC
                  \<and> next_of s' (last ys) = 0
                  \<and> maps s' = maps s \<and> heap_start s' = heap_start s
                  \<and> (last ys + header_size s + size_of s1 (last ys) = program_break s \<longrightarrow>
                       last ys + header_size s + size_of s' (last ys) = program_break s')))"
proof -
  let ?sz = "aligned_size n"
  let ?hs = "header_size s"
  from coalesce_loop_terminates [OF assms(1,2)]
  obtain s1 ys where c: "coalesce_loop (heap_start s) s = Some s1" and p1: "path s1 (heap_start s) ys"
    and ne: "ys \<noteq> []" and om: "only_meta s s1"
    by blast
  from c assms(2) have cb: "coalesce_blocks (heap_start s) s = Some s1"
    by (simp add: coalesce_blocks_def)
  note f = only_meta_fields [OF om]
  have "(\<exists>s'. os_malloc n s = Some (Inr (last ys + ?hs, s'))
                  \<and> program_break s' = program_break s + (?sz - size_of s1 (last ys))
                  \<and> size_of s' (last ys) = ?sz
                  \<and> status_of s' (last ys) = STATUS_ALLOC
                  \<and> next_of s' (last ys) = 0
                  \<and> maps s' = maps s \<and> heap_start s' = heap_start s
                  \<and> (last ys + ?hs + size_of s1 (last ys) = program_break s \<longrightarrow>
                       last ys + ?hs + size_of s' (last ys) = program_break s'))"
    if h: "(\<forall>x\<in>set ys. \<not> candidate s1 (?sz + ?hs) x)
                \<and> status_of s1 (last ys) = STATUS_FREE
                \<and> program_break s \<noteq> 0 \<and> program_break s \<noteq> last ys
                \<and> accessible
                     (s\<lparr>program_break := program_break s + (?sz - size_of s1 (last ys))\<rparr>)
                     (program_break s) (unat sizeof_block_meta)"
  proof -
    let ?t = "last ys"
    let ?nb = "program_break s"
    let ?d = "?sz - size_of s1 ?t"
    have fb: "find_best_block (heap_start s) (?sz + ?hs) s1 = Some (0, s1)"
      using p1 assms(2) h by (simp add: find_best_block_none)
    have lb: "last_block (heap_start s) s1 = Some ?t"
      using p1 assms(2) by (rule last_block_path)
    have "?t \<in> set ys" using ne by simp
    with h have "\<not> candidate s1 (?sz + ?hs) ?t" by blast
    with h f have nc: "\<not> ?sz + ?hs \<le> ?hs + size_of s1 ?t"
      by (simp add: candidate_def)
    have "?sz + ?hs - (?hs + size_of s1 ?t) \<le> MMAP_THRESHOLD"
      using nc assms(4) by (rule word_diff_le_bound)
    then have d: "\<not> MMAP_THRESHOLD < ?d" by (simp add: not_less)
    have nb: "program_break s1 \<noteq> 0" "program_break s1 = ?nb" using h f by simp_all
    have acc: "accessible (s1\<lparr>program_break := program_break s1 + ?d\<rparr>) (program_break s1)
                 (unat sizeof_block_meta)"
      using h f by (simp add: accessible_def)
    note ab = alloc_block_sbrk [OF d nb(1) acc, of ?t]
    let ?s6 = "set_next ?nb 0 ((if ?t \<noteq> 0 then set_next ?t ?nb else id)
               (set_prev ?nb ?t (set_size ?nb (?d - header_size s1)
                     (set_status ?nb STATUS_ALLOC (s1\<lparr>program_break := ?nb + ?d\<rparr>)))))"
    let ?s' = "set_status ?t STATUS_ALLOC (merge ?t ?nb ?s6)"
    have tn: "?t \<noteq> 0" using path_nonzero [OF p1] \<open>?t \<in> set ys\<close> by metis
    have res: "os_malloc n s = Some (Inr (?t + ?hs, ?s'))"
      using assms(2,3,4) cb fb lb h ab f tn
      by (simp add: os_malloc_def Let_def not_less [symmetric] setter_simps merge_def)
    have neq: "?nb \<noteq> ?t" using h by simp
    have pb: "program_break ?s' = ?nb + ?d"
      using tn by (simp add: setter_simps merge_def Let_def)
    have sz: "size_of ?s' ?t = ?sz"
      using tn neq f by (simp add: setter_simps merge_def Let_def)
    have "?t + ?hs + size_of ?s' ?t = program_break ?s'"
      if e: "?t + ?hs + size_of s1 ?t = ?nb"
    proof -
      have mid: "?t + ?hs + ?sz = ?nb + ?d"
        unfolding e [symmetric] by simp
      have "?t + ?hs + size_of ?s' ?t = ?t + ?hs + ?sz"
        by (simp only: sz)
      also note mid
      also have "?nb + ?d = program_break ?s'"
        by (simp only: pb)
      finally show ?thesis .
    qed
    moreover note pb sz
    moreover have "status_of ?s' ?t = STATUS_ALLOC"
      by (simp add: setter_simps)
    moreover have "next_of ?s' ?t = 0"
      using tn neq by (simp add: setter_simps merge_def Let_def)
    moreover have "maps ?s' = maps s \<and> heap_start ?s' = heap_start s"
      using tn f by (simp add: setter_simps merge_def Let_def)
    ultimately show ?thesis using res by blast
  qed
  with cb p1 ne om show ?thesis
    unfolding only_meta_def by blast
qed

section \<open>Heaps whose blocks fill the data segment\<close>

lemma block_end_ge: "unat b \<le> block_end s b"
  by (simp add: block_end_def)

lemma tiles_mono: "tiles s xs a e \<Longrightarrow> a \<le> e"
proof (induction xs arbitrary: a)
  case Nil
  then show ?case by simp
next
  case (Cons x xs)
  then have "block_end s x \<le> e" by simp
  with Cons.prems block_end_ge [of x s] show ?case by simp
qed

lemma tiles_append: "tiles s (xs @ ys) a e = (\<exists>m. tiles s xs a m \<and> tiles s ys m e)"
  by (induction xs arbitrary: a) auto

lemma block_end_cong:
  "header_size s' = header_size s \<Longrightarrow> size_of s' x = size_of s x \<Longrightarrow> block_end s' x = block_end s x"
  by (simp add: block_end_def)

lemma tiles_cong:
  "header_size s' = header_size s \<Longrightarrow> \<forall>x\<in>set xs. size_of s' x = size_of s x \<Longrightarrow>
   tiles s xs a e \<Longrightarrow> tiles s' xs a e"
proof (induction xs arbitrary: a)
  case Nil
  then show ?case by simp
next
  case (Cons x xs)
  from Cons.prems have "block_end s' x = block_end s x"
    by (simp add: block_end_def)
  with Cons show ?case by simp
qed

text \<open>With a header of positive length the blocks of a tiling lie in ascending order.\<close>

lemma tiles_bounds:
  "tiles s xs a e \<Longrightarrow> \<forall>x\<in>set xs. a \<le> unat x \<and> block_end s x \<le> e"
proof (induction xs arbitrary: a)
  case Nil
  then show ?case by simp
next
  case (Cons x xs)
  from Cons.prems have t: "tiles s xs (block_end s x) e" and x: "unat x = a" by simp_all
  from tiles_mono [OF t] have "block_end s x \<le> e" .
  moreover from Cons.IH [OF t] have "\<forall>y\<in>set xs. block_end s x \<le> unat y \<and> block_end s y \<le> e" .
  ultimately show ?case using x block_end_ge [of x s] by auto
qed

lemma tiles_split_bounds:
  assumes "tiles s (pre @ b # post) a e"
  shows "(\<forall>x\<in>set pre. block_end s x \<le> unat b) \<and> (\<forall>x\<in>set post. block_end s b \<le> unat x)
         \<and> block_end s b \<le> e"
proof -
  from assms obtain m where m: "tiles s pre a m" "tiles s (b # post) m e"
    by (auto simp: tiles_append)
  then have b: "unat b = m" and p: "tiles s post (block_end s b) e" by simp_all
  from tiles_bounds [OF m(1)] b have "\<forall>x\<in>set pre. block_end s x \<le> unat b" by simp
  moreover from tiles_bounds [OF p] have "\<forall>x\<in>set post. block_end s b \<le> unat x" by simp
  moreover from tiles_mono [OF p] have "block_end s b \<le> e" .
  ultimately show ?thesis by simp
qed

lemma path_insert:
  assumes "path s a (pre @ b # post)"
    and "\<forall>x\<in>set pre \<union> set post. next_of s' x = next_of s x"
    and "next_of s' b = nb" and "next_of s' nb = next_of s b" and "nb \<noteq> 0"
  shows "path s' a (pre @ b # nb # post)"
  using assms(1,2)
proof (induction pre arbitrary: a)
  case Nil
  then have p: "path s (next_of s b) post" and c: "\<forall>x\<in>set post. next_of s' x = next_of s x"
    by auto
  from c p have "path s' (next_of s b) post" by (rule path_next_cong)
  with Nil assms(3,4,5) show ?case by auto
next
  case (Cons x pre)
  then show ?case by auto
qed

lemma tiles_insert:
  assumes "tiles s (pre @ b # post) a e"
    and "header_size s' = header_size s"
    and "\<forall>x\<in>set pre \<union> set post. size_of s' x = size_of s x"
    and "block_end s' b = unat nb" and "block_end s' nb = block_end s b"
  shows "tiles s' (pre @ b # nb # post) a e"
  using assms(1,3)
proof (induction pre arbitrary: a)
  case Nil
  then have p: "tiles s post (block_end s b) e" and c: "\<forall>x\<in>set post. size_of s' x = size_of s x"
    by auto
  from assms(2) c p have "tiles s' post (block_end s b) e" by (rule tiles_cong)
  with Nil assms(4,5) show ?case by simp
next
  case (Cons x pre)
  from Cons.prems assms(2) have "block_end s' x = block_end s x"
    by (simp add: block_end_def)
  with Cons show ?case by auto
qed

text \<open>
  Coalescing keeps the list a tiling of the same range: a merged block ends where its
  absorbed successor ended.
\<close>

lemma merge_meta_other:
  "c \<noteq> a \<Longrightarrow> next_of s (next_of s a) = 0 \<or> c \<noteq> next_of s (next_of s a) \<Longrightarrow>
   meta (merge a b s) c = meta s c"
  by (auto simp: merge_def Let_def meta_setters setter_simps)

lemma merge_size_first:
  "size_of (merge a b s) a = size_of s a + (header_size s + size_of s b)"
  by (simp add: merge_def Let_def setter_simps)

lemma merge_size_other: "c \<noteq> a \<Longrightarrow> size_of (merge a b s) c = size_of s c"
  by (simp add: merge_def Let_def setter_simps)

lemma coalesce_loop_tiles:
  "path s a xs \<Longrightarrow> a \<noteq> 0 \<Longrightarrow> tiles s xs (unat a) e \<Longrightarrow> e < 2 ^ 64 \<Longrightarrow>
   \<exists>s' ys. coalesce_loop a s = Some s' \<and> path s' a ys \<and> ys \<noteq> []
     \<and> tiles s' ys (unat a) e \<and> only_meta s s'
     \<and> (\<forall>c. c \<notin> set xs \<longrightarrow> meta s' c = meta s c)"
proof (induction "length xs" arbitrary: xs a s rule: less_induct)
  case less
  from less.prems obtain rest where xs: "xs = a # rest" and p: "path s (next_of s a) rest"
    by (cases xs) auto
  from less.prems(3) xs have t: "tiles s rest (block_end s a) e" by simp
  show ?case
  proof (cases "next_of s a = 0")
    case True
    with p have "rest = []" by (cases rest) simp_all
    with True xs less.prems have "coalesce_loop a s = Some s \<and> path s a [a]
        \<and> tiles s [a] (unat a) e \<and> only_meta s s"
      by (subst coalesce_loop.simps) (simp add: only_meta_refl)
    then show ?thesis by blast
  next
    case False
    with p obtain b rest' where rest: "rest = b # rest'" and b: "b = next_of s a" "b \<noteq> 0"
      and p': "path s (next_of s b) rest'"
      by (cases rest) auto
    from t rest have ub: "unat b = block_end s a" and t': "tiles s rest' (block_end s b) e"
      by simp_all
    have d: "distinct xs" using less.prems(1) by (rule path_distinct)
    show ?thesis
    proof (cases "status_of s a = STATUS_FREE \<and> status_of s b = STATUS_FREE")
      case True
      let ?s2 = "merge a b s"
      have step: "coalesce_loop a s = coalesce_loop a ?s2"
        using True False b by (subst coalesce_loop.simps) simp
      have na: "\<forall>x\<in>set rest'. x \<noteq> a"
        using d xs rest by auto
      then have "\<forall>x\<in>set rest'. next_of ?s2 x = next_of s x"
        by (simp add: merge_next_other)
      then have "path ?s2 (next_of s b) rest'" using p' by (rule path_next_cong)
      then have p2: "path ?s2 a (a # rest')"
        using less.prems(2) b by (simp add: merge_next_first)
      have om2: "only_meta s ?s2" by (rule merge_only_meta)
      note f2 = only_meta_fields [OF om2]
      have le: "block_end s b \<le> e" using t' by (rule tiles_mono)
      have "unat (size_of s a) + (unat (header_size s) + unat (size_of s b)) < 2 ^ 64"
        using le ub less.prems(4) by (simp add: block_end_def)
      then have "unat (size_of s a + (header_size s + size_of s b))
                   = unat (size_of s a) + (unat (header_size s) + unat (size_of s b))"
        by (simp add: unat_word_ariths)
      then have be: "block_end ?s2 a = block_end s b"
        using ub f2 by (simp add: block_end_def merge_size_first)
      have "tiles ?s2 rest' (block_end s b) e"
      proof (rule tiles_cong [OF _ _ t'])
        show "header_size ?s2 = header_size s" using f2 by simp
        show "\<forall>x\<in>set rest'. size_of ?s2 x = size_of s x"
          using na by (simp add: merge_size_other)
      qed
      with be have t2: "tiles ?s2 (a # rest') (unat a) e" by simp
      have "length (a # rest') < length xs" using xs rest by simp
      from less.hyps [OF this p2 less.prems(2) t2 less.prems(4)]
      obtain s' ys where r: "coalesce_loop a ?s2 = Some s'" "path s' a ys" "ys \<noteq> []"
        "tiles s' ys (unat a) e" "only_meta ?s2 s'"
        "\<forall>c. c \<notin> set (a # rest') \<longrightarrow> meta s' c = meta ?s2 c"
        by blast
      have "only_meta s s'" using om2 r(5) by (rule only_meta_trans)
      moreover have "\<forall>c. c \<notin> set xs \<longrightarrow> meta s' c = meta s c"
      proof (intro allI impI)
        fix c assume c: "c \<notin> set xs"
        then have "c \<notin> set (a # rest')" using xs rest by simp
        with r(6) have "meta s' c = meta ?s2 c" by simp
        also have "\<dots> = meta s c"
        proof (rule merge_meta_other)
          show "c \<noteq> a" using c xs by simp
          show "next_of s (next_of s a) = 0 \<or> c \<noteq> next_of s (next_of s a)"
          proof (cases rest')
            case Nil
            with p' b show ?thesis by simp
          next
            case (Cons y zs)
            with p' have "next_of s b = y" by simp
            with c xs rest Cons b show ?thesis by auto
          qed
        qed
        finally show "meta s' c = meta s c" .
      qed
      moreover have "coalesce_loop a s = Some s'" using step r(1) by simp
      ultimately show ?thesis using r(2,3,4) by blast
    next
      case nf: False
      have step: "coalesce_loop a s = coalesce_loop b s"
        using nf False b by (subst coalesce_loop.simps) auto
      have pb: "path s b rest" using p b by simp
      have tb: "tiles s rest (unat b) e" using t ub by simp
      have "length rest < length xs" using xs by simp
      from less.hyps [OF this pb b(2) tb less.prems(4)]
      obtain s' ys where r: "coalesce_loop b s = Some s'" "path s' b ys" "ys \<noteq> []"
        "tiles s' ys (unat b) e" "only_meta s s'"
        "\<forall>c. c \<notin> set rest \<longrightarrow> meta s' c = meta s c"
        by blast
      note f = only_meta_fields [OF r(5)]
      have "a \<notin> set rest" using d xs by simp
      with r(6) have ma: "meta s' a = meta s a" by simp
      then have "next_of s' a = b" using b by simp
      with r(2) less.prems(2) have "path s' a (a # ys) \<and> a # ys \<noteq> []" by simp
      moreover have "block_end s' a = block_end s a" using ma f by (simp add: block_end_def)
      with r(4) ub have "tiles s' (a # ys) (unat a) e" by simp
      moreover have "\<forall>c. c \<notin> set xs \<longrightarrow> meta s' c = meta s c"
        using r(6) xs by simp
      moreover have "coalesce_loop a s = Some s'" using step r(1) by simp
      ultimately show ?thesis using r(5) by blast
    qed
  qed
qed

lemma find_best_block_found:
  assumes "path s a xs" and "a \<noteq> 0" and "\<exists>x\<in>set xs. candidate s bytes x"
  shows "\<exists>pre b post. xs = pre @ b # post \<and> candidate s bytes b
           \<and> find_best_block a bytes s = Some (b, set_status b STATUS_ALLOC (split b bytes s))"
proof -
  let ?r = "foldl (pick s bytes) 0 xs"
  have nz: "0 \<notin> set xs" using assms(1) by (rule path_nonzero)
  have loop: "find_best_loop a 0 bytes s = Some ?r"
    using assms(1,2) by (rule find_best_loop_fold)
  from assms(3) pick_fold_none [OF nz, of s bytes] have r: "?r \<noteq> 0" by simp
  from pick_fold_best [OF nz refl r]
  obtain pre post where "xs = pre @ ?r # post" "candidate s bytes ?r"
    by blast
  moreover from loop r have "find_best_block a bytes s =
      Some (?r, set_status ?r STATUS_ALLOC (split ?r bytes s))"
    by (simp add: find_best_block_def)
  ultimately show ?thesis by blast
qed

lemma heap_ok_status: "heap_ok s xs \<Longrightarrow> heap_ok (set_status b v s) xs"
proof -
  assume ok: "heap_ok s xs"
  from ok have p: "path s (heap_start s) xs"
    and t: "tiles s xs (unat (heap_start s)) (unat (program_break s))"
    by (simp_all add: heap_ok_def)
  have n: "\<forall>x\<in>set xs. next_of (set_status b v s) x = next_of s x"
    by (simp add: setter_simps)
  have z: "\<forall>x\<in>set xs. size_of (set_status b v s) x = size_of s x"
    by (simp add: setter_simps)
  have h: "header_size (set_status b v s) = header_size s"
    by (simp add: setter_simps)
  from n p have "path (set_status b v s) (heap_start s) xs"
    by (rule path_next_cong)
  moreover from h z t
  have "tiles (set_status b v s) xs (unat (heap_start s)) (unat (program_break s))"
    by (rule tiles_cong)
  ultimately show ?thesis using ok by (simp add: heap_ok_def setter_simps)
qed

lemma header_size_ge:
  "sizeof_block_meta \<le> header_size s \<Longrightarrow> 32 \<le> unat (header_size s)"
  by (simp add: sizeof_block_meta_def word_le_nat_alt)

lemma split_heap_ok:
  assumes ok: "heap_ok s (pre @ b # post)"
    and hb: "unat (header_size s) \<le> unat bytes"
    and bs: "unat bytes \<le> unat (header_size s) + unat (size_of s b)"
    and g: "header_size s < header_size s + size_of s b - bytes"
  shows "heap_ok (split b bytes s) (pre @ b # (b + bytes) # post)
         \<and> size_of (split b bytes s) b = bytes - header_size s
         \<and> status_of (split b bytes s) b = status_of s b
         \<and> heap_start (split b bytes s) = heap_start s
         \<and> program_break (split b bytes s) = program_break s
         \<and> header_size (split b bytes s) = header_size s"
proof -
  let ?e = "unat (program_break s)"
  let ?nb = "b + bytes"
  let ?s' = "split b bytes s"
  from ok have p: "path s (heap_start s) (pre @ b # post)"
    and t: "tiles s (pre @ b # post) (unat (heap_start s)) ?e"
    and h32: "32 \<le> unat (header_size s)"
    by (simp_all add: heap_ok_def header_size_ge)
  from tiles_split_bounds [OF t]
  have bpre: "\<forall>x\<in>set pre. block_end s x \<le> unat b"
    and bpost: "\<forall>x\<in>set post. block_end s b \<le> unat x"
    and be: "block_end s b \<le> ?e"
    by simp_all
  have e: "?e < 2 ^ 64" using unsigned_less [of "program_break s"] by simp
  from be e have nw: "unat (size_of s b) + unat (header_size s) < 2 ^ 64"
    by (simp add: block_end_def)
  from bs have bs': "unat bytes \<le> unat (size_of s b) + unat (header_size s)" by simp
  from g split_cond_iff [OF bs' nw] have lt: "unat bytes < unat (size_of s b)"
    by (simp add: word_less_nat_alt)
  have unb: "unat ?nb = unat b + unat bytes"
    using be e lt by (simp add: unat_word_ariths block_end_def)
  have bz: "bytes \<noteq> 0" using hb h32 by (auto simp: unat_eq_zero [symmetric])
  have d: "distinct (pre @ b # post)" using p by (rule path_distinct)
  have pb: "path s b (b # post)" using p by (rule path_suffix)
  have bnz: "b \<noteq> 0" using pb by simp
  have nxt: "next_of s b = 0 \<or> next_of s b \<in> set post"
    using pb by (cases post) auto
  have post_far: "\<forall>x\<in>set post. x \<noteq> b \<and> x \<noteq> ?nb"
  proof
    fix x assume x: "x \<in> set post"
    with bpost have "block_end s b \<le> unat x" by simp
    then have "unat b < unat x \<and> unat ?nb < unat x"
      using unb lt h32 by (simp add: block_end_def)
    then show "x \<noteq> b \<and> x \<noteq> ?nb" by auto
  qed
  have pre_far: "\<forall>x\<in>set pre. x \<noteq> b \<and> x \<noteq> ?nb"
  proof
    fix x assume x: "x \<in> set pre"
    with bpre have "block_end s x \<le> unat b" by simp
    then have "unat x < unat b \<and> unat x < unat ?nb"
      using unb h32 by (simp add: block_end_def)
    then show "x \<noteq> b \<and> x \<noteq> ?nb" by auto
  qed
  have nbb: "?nb \<noteq> b" using bz by simp
  have nx: "next_of s b = 0 \<or> (next_of s b \<noteq> b \<and> next_of s b \<noteq> ?nb)"
    using nxt post_far by auto
  note eff = split_effect [OF g bz nx]
  have glob: "heap_start ?s' = heap_start s \<and> program_break ?s' = program_break s
              \<and> header_size ?s' = header_size s"
    by (simp add: eff)
  have mb: "meta ?s' b = (meta s b)\<lparr>bm_size := bytes - header_size s, bm_next := ?nb\<rparr>"
    using nx nbb by (auto simp: eff Let_def)
  have mnb: "meta ?s' ?nb = \<lparr>bm_size = size_of s b - bytes, bm_status = STATUS_FREE,
                             bm_prev = b, bm_next = next_of s b\<rparr>"
    using nx nbb by (auto simp: eff Let_def)
  have mo: "next_of ?s' x = next_of s x \<and> size_of ?s' x = size_of s x"
    if "x \<noteq> b" "x \<noteq> ?nb" for x
    using that by (auto simp: eff Let_def)
  have others: "\<forall>x\<in>set pre \<union> set post. next_of ?s' x = next_of s x"
    "\<forall>x\<in>set pre \<union> set post. size_of ?s' x = size_of s x"
    using pre_far post_far mo by auto
  have nbnz: "?nb \<noteq> 0"
    using unb bz by (auto simp: unat_eq_zero [symmetric])
  have p': "path ?s' (heap_start s) (pre @ b # ?nb # post)"
    using p others(1) by (rule path_insert) (simp_all add: mb mnb nbnz)
  have hle: "header_size s \<le> bytes" using hb by (simp add: word_le_nat_alt)
  have u1: "unat (bytes - header_size s) = unat bytes - unat (header_size s)"
    using hle by (simp add: unat_sub)
  have ble: "bytes \<le> size_of s b" using lt by (simp add: word_le_nat_alt)
  have u2: "unat (size_of s b - bytes) = unat (size_of s b) - unat bytes"
    using ble by (simp add: unat_sub)
  have e1: "block_end ?s' b = unat ?nb"
    using hb unb glob by (simp add: block_end_def mb u1)
  have e2: "block_end ?s' ?nb = block_end s b"
    using lt unb glob by (simp add: block_end_def mnb u2)
  have t': "tiles ?s' (pre @ b # ?nb # post) (unat (heap_start s)) ?e"
    using t _ others(2) e1 e2 by (rule tiles_insert) (simp add: glob)
  from p' t' ok glob have "heap_ok ?s' (pre @ b # ?nb # post)"
    by (simp add: heap_ok_def)
  with glob mb show ?thesis by simp
qed

lemma heap_ok_member:
  assumes "heap_ok s xs" and "b \<in> set xs"
  shows "b \<noteq> 0 \<and> block_end s b < 2 ^ 64"
proof -
  from assms(1) have p: "path s (heap_start s) xs"
    and t: "tiles s xs (unat (heap_start s)) (unat (program_break s))"
    by (simp_all add: heap_ok_def)
  from path_nonzero [OF p] assms(2) have "b \<noteq> 0" by metis
  from tiles_bounds [OF t] assms(2)
  have "block_end s b \<le> unat (program_break s)" by simp
  moreover have "unat (program_break s) < 2 ^ 64"
    using unsigned_less [of "program_break s"] by simp
  ultimately have "block_end s b < 2 ^ 64" by simp
  with \<open>b \<noteq> 0\<close> show ?thesis by simp
qed

lemma free_after_alloc:
  assumes ok: "heap_ok s xs" and b: "b \<in> set xs" and st: "status_of s b = STATUS_ALLOC"
  shows "b + header_size s \<noteq> 0
         \<and> b + header_size s - header_size s = b
         \<and> os_free (b + header_size s) s =
              s\<lparr>meta := (meta s)(b := (meta s b)\<lparr>bm_status := STATUS_FREE\<rparr>)\<rparr>
         \<and> heap_ok (os_free (b + header_size s) s) xs
         \<and> status_of (os_free (b + header_size s) s) b = STATUS_FREE
         \<and> heap_start (os_free (b + header_size s) s) = heap_start s
         \<and> program_break (os_free (b + header_size s) s) = program_break s"
proof -
  from heap_ok_member [OF ok b] have bnz: "b \<noteq> 0" and be: "block_end s b < 2 ^ 64"
    by simp_all
  from be have "unat b + unat (header_size s) < 2 ^ 64" by (simp add: block_end_def)
  then have "unat (b + header_size s) = unat b + unat (header_size s)"
    by (simp add: unat_word_ariths)
  with bnz have a: "b + header_size s \<noteq> 0"
    by (auto simp: unat_eq_zero [symmetric])
  have f: "os_free (b + header_size s) s = set_status b STATUS_FREE s"
    using a bnz st by (simp add: os_free_def Let_def)
  have "heap_ok (set_status b STATUS_FREE s) xs" using ok by (rule heap_ok_status)
  with a f show ?thesis by (simp add: setter_simps) (simp add: set_status_def)
qed

section \<open>Claims\<close>

text \<open>
  C1: the claim fails on the code. With pages of 4096 bytes, \<^verbatim>\<open>os_calloc(100, 100)\<close> asks for
  10000 bytes, which with the header exceed the page size; on a heap with a large FREE
  block the request is served from that block: the returned block is ALLOC, no mapping
  is made and the program break stays.
\<close>

theorem os_calloc_large_served_from_heap:
  "sys_pagesize one_free < aligned_size (100 * 100) + header_size one_free
   \<and> (case os_calloc 100 100 one_free of
         Some (Inr (p, s')) \<Rightarrow>
           p = 0x10000020 \<and> status_of s' 0x10000000 = STATUS_ALLOC
           \<and> size_of s' 0x10000000 = 10000 \<and> maps s' = []
           \<and> program_break s' = program_break one_free
       | _ \<Rightarrow> False)"
  by (simp add: eval_defs loop_simps one_free_def init_state_def)

text \<open>
  C2: the claim fails on the code. In \<open>dirty_state\<close> the call
  \<^verbatim>\<open>os_calloc(8, 2^61 + 1)\<close> passes the test on the size of one element, takes the branch
  written for mappings, and gets its 40 bytes from \<^verbatim>\<open>sbrk\<close>, since the wrapped total is
  small; nothing clears them. The call returns a non-null pointer to a block of size 8
  whose first payload byte is \<open>0xFF\<close>.
\<close>

theorem os_calloc_payload_not_zero:
  "case os_calloc 8 0x2000000000000001 dirty_state of
     Some (Inr (r, s')) \<Rightarrow>
       r = 0x10020028 \<and> size_of s' (r - header_size s') = 8
       \<and> status_of s' (r - header_size s') = STATUS_ALLOC \<and> mem s' r = 0xFF
   | _ \<Rightarrow> False"
  by (simp add: eval_defs dirty_state_def init_state_def wrapped_products)

text \<open>
  C3: the claim fails on the code. \<^verbatim>\<open>os_calloc(100, 100)\<close> as the first call of a process
  leaves \<open>heap_start\<close> at a MAPPED block, which is then the heap list; the same call on a
  heap whose last block is ALLOC links a MAPPED block behind that block.
\<close>

theorem os_calloc_mapped_block_in_heap_list:
  "(case os_calloc 100 100 init_state of
      Some (Inr (p, s')) \<Rightarrow>
        heap_start s' = 0x7f0000000000 \<and> status_of s' (heap_start s') = STATUS_MAPPED
        \<and> path s' (heap_start s') [0x7f0000000000]
    | _ \<Rightarrow> False)
   \<and> (case os_calloc 100 100 two_blocks of
         Some (Inr (p, s')) \<Rightarrow>
           path s' (heap_start s') [0x10000000, 0x10020000, 0x7f0000000000]
           \<and> status_of s' 0x7f0000000000 = STATUS_MAPPED
       | _ \<Rightarrow> False)"
  by (simp add: eval_defs loop_simps init_state_def two_blocks_def)




text \<open>
  C5: the claim fails on the code. In \<open>page_end_state\<close> the request \<^verbatim>\<open>os_malloc(4064)\<close> finds no
  candidate, the last block is FREE, and the growth is 8 bytes. \<^verbatim>\<open>alloc_block\<close> moves the
  break by these 8 bytes, to the end of the page, and stores a header of 32 bytes at the
  old break: the program ends with a fault instead of returning the grown block.
\<close>

theorem os_malloc_tail_growth_faults:
  "path page_end_state (heap_start page_end_state) [0x10000000, 0x10020000]
   \<and> coalesce_blocks (heap_start page_end_state) page_end_state = Some page_end_state
   \<and> \<not> candidate page_end_state (aligned_size 4064 + header_size page_end_state) 0x10000000
   \<and> \<not> candidate page_end_state (aligned_size 4064 + header_size page_end_state) 0x10020000
   \<and> status_of page_end_state 0x10020000 = STATUS_FREE
   \<and> aligned_size 4064 - size_of page_end_state 0x10020000 = 8
   \<and> program_break page_end_state = 0x10020FF8
   \<and> os_malloc 4064 page_end_state = Some (Inl Fault)"
  by (simp add: eval_defs loop_simps candidate_def page_end_state_def init_state_def)




text \<open>
  C7: \<^verbatim>\<open>os_realloc\<close> with a size whose aligned value is 0 frees the pointer and returns
  null; \<^verbatim>\<open>os_realloc\<close> of the null pointer is \<^verbatim>\<open>os_malloc\<close> of the size; \<^verbatim>\<open>os_realloc\<close> of a
  pointer whose block is FREE returns null and leaves the state as it is.
\<close>

theorem os_realloc_edge_cases:
  "(aligned_size size0 = 0 \<longrightarrow> os_realloc ptr size0 s = Some (Inr (0, os_free ptr s)))
   \<and> os_realloc 0 size0 s = os_malloc size0 s
   \<and> (ptr \<noteq> 0 \<and> status_of s (ptr - header_size s) = STATUS_FREE \<longrightarrow>
        os_realloc ptr size0 s = Some (Inr (0, s)))"
proof (intro conjI impI)
  assume "aligned_size size0 = 0"
  then show "os_realloc ptr size0 s = Some (Inr (0, os_free ptr s))"
    by (simp add: os_realloc_def)
next
  show "os_realloc 0 size0 s = os_malloc size0 s"
  proof (cases "aligned_size size0 = 0")
    case True
    then show ?thesis by (simp add: os_realloc_def os_malloc_def os_free_def)
  next
    case False
    have "os_malloc (aligned_size size0) s = os_malloc size0 s"
      by (simp add: os_malloc_def aligned_size_idem)
    with False show ?thesis by (simp add: os_realloc_def)
  qed
next
  assume "ptr \<noteq> 0 \<and> status_of s (ptr - header_size s) = STATUS_FREE"
  then show "os_realloc ptr size0 s = Some (Inr (0, s))"
    by (simp add: os_realloc_def os_free_def Let_def)
qed

theorem os_realloc_edge_cases_witness:
  "aligned_size 0 = 0
   \<and> os_realloc 0x10020020 0 two_blocks = Some (Inr (0, os_free 0x10020020 two_blocks))
   \<and> os_realloc 0 64 two_blocks = os_malloc 64 two_blocks
   \<and> (0x10020020 :: addr) \<noteq> 0
   \<and> status_of (os_free 0x10020020 two_blocks)
        (0x10020020 - header_size (os_free 0x10020020 two_blocks)) = STATUS_FREE
   \<and> os_realloc 0x10020020 64 (os_free 0x10020020 two_blocks) =
        Some (Inr (0, os_free 0x10020020 two_blocks))"
  using os_realloc_edge_cases [of 0 "0x10020020" two_blocks]
        os_realloc_edge_cases [of 64 "0x10020020" "os_free 0x10020020 two_blocks"]
        os_realloc_edge_cases [of 64 "0x10020020" two_blocks]
  by (simp add: two_blocks_def init_state_def os_free_def Let_def set_status_def aligned_size_def)

text \<open>
  C8: \<^verbatim>\<open>os_free\<close> of the null pointer and of a pointer whose block is already FREE leaves
  the whole state as it is. \<^verbatim>\<open>os_free\<close> of a pointer to an ALLOC block changes the status
  of that block to FREE and nothing else: every size, every link, every other status, the
  payload bytes, \<open>heap_start\<close> and the program break stay (the resulting state is the old
  one with that single status field replaced; no merging takes place).
\<close>

theorem os_free_frame:
  "os_free 0 s = s
   \<and> (status_of s (ptr - header_size s) = STATUS_FREE \<longrightarrow> os_free ptr s = s)
   \<and> (ptr \<noteq> 0 \<and> ptr - header_size s \<noteq> 0
        \<and> status_of s (ptr - header_size s) = STATUS_ALLOC \<longrightarrow>
      os_free ptr s =
        s\<lparr>meta := (meta s)(ptr - header_size s :=
              (meta s (ptr - header_size s))\<lparr>bm_status := STATUS_FREE\<rparr>)\<rparr>)"
  by (simp add: os_free_def Let_def set_status_def)

theorem os_free_frame_witness:
  "status_of (os_free 0x10000020 two_blocks) (0x10000020 - header_size two_blocks) = STATUS_FREE
   \<and> os_free 0x10000020 (os_free 0x10000020 two_blocks) = os_free 0x10000020 two_blocks
   \<and> (0x10020020 :: addr) \<noteq> 0 \<and> 0x10020020 - header_size two_blocks \<noteq> 0
   \<and> status_of two_blocks (0x10020020 - header_size two_blocks) = STATUS_ALLOC
   \<and> os_free 0x10020020 two_blocks =
       two_blocks\<lparr>meta := (meta two_blocks)(0x10020000 :=
          \<lparr>bm_size = 64, bm_status = STATUS_FREE, bm_prev = 0x10000000, bm_next = 0\<rparr>)\<rparr>"
  using os_free_frame [of "os_free 0x10000020 two_blocks" "0x10000020"]
        os_free_frame [of two_blocks "0x10020020"]
  by (simp add: two_blocks_def init_state_def os_free_def Let_def set_status_def)

text \<open>
  C9: take a heap whose blocks fill the range from \<open>heap_start\<close> to the program break
  (\<open>heap_ok\<close>) and a request \<open>n\<close> whose aligned size is not 0 and reaches the threshold with
  the header at most. \<^verbatim>\<open>os_malloc\<close> first coalesces, which keeps the list a tiling of the same
  range. If the coalesced list holds a FREE block large enough for the request, then
  \<^verbatim>\<open>os_malloc n\<close> returns a non-null pointer \<open>a\<close> to a block of the list, ALLOC and of at
  least the aligned size, and the list still fills the range from the \<open>heap_start\<close> to the
  program break that the heap had before the call; \<^verbatim>\<open>os_free a\<close> then replaces the status of
  that block by FREE and changes nothing else, so that after the sequence the list fills
  the same range as before it and the block at \<open>a\<close> is FREE.
\<close>

theorem malloc_free_roundtrip:
  assumes ok: "heap_ok s xs" and nz: "aligned_size n \<noteq> 0"
    and th: "unat (aligned_size n) + unat (header_size s) \<le> unat MMAP_THRESHOLD"
  shows "\<exists>sc ys. coalesce_blocks (heap_start s) s = Some sc \<and> sc = s\<lparr>meta := meta sc\<rparr>
           \<and> heap_ok sc ys
           \<and> ((\<exists>x\<in>set ys. candidate sc (aligned_size n + header_size s) x) \<longrightarrow>
               (\<exists>a s1 zs. os_malloc n s = Some (Inr (a, s1))
                  \<and> a \<noteq> 0 \<and> heap_ok s1 zs \<and> a - header_size s1 \<in> set zs
                  \<and> status_of s1 (a - header_size s1) = STATUS_ALLOC
                  \<and> aligned_size n \<le> size_of s1 (a - header_size s1)
                  \<and> heap_start s1 = heap_start s \<and> program_break s1 = program_break s
                  \<and> os_free a s1 =
                       s1\<lparr>meta := (meta s1)(a - header_size s1 :=
                             (meta s1 (a - header_size s1))\<lparr>bm_status := STATUS_FREE\<rparr>)\<rparr>
                  \<and> heap_ok (os_free a s1) zs
                  \<and> status_of (os_free a s1) (a - header_size s1) = STATUS_FREE
                  \<and> heap_start (os_free a s1) = heap_start s
                  \<and> program_break (os_free a s1) = program_break s))"
proof -
  let ?sz = "aligned_size n"
  let ?hs = "header_size s"
  let ?bytes = "?sz + ?hs"
  let ?h = "heap_start s"
  let ?e = "unat (program_break s)"
  from ok have p: "path s ?h xs" and t: "tiles s xs (unat ?h) ?e" and ne: "xs \<noteq> []"
    and h32: "sizeof_block_meta \<le> ?hs"
    by (simp_all add: heap_ok_def)
  from p ne have hnz: "?h \<noteq> 0" by (cases xs) auto
  have e: "?e < 2 ^ 64" using unsigned_less [of "program_break s"] by simp
  from coalesce_loop_tiles [OF p hnz t e]
  obtain sc ys where c: "coalesce_loop ?h s = Some sc" and pc: "path sc ?h ys"
    and nec: "ys \<noteq> []" and tc: "tiles sc ys (unat ?h) ?e" and om: "only_meta s sc"
    by blast
  from c hnz have cb: "coalesce_blocks ?h s = Some sc"
    by (simp add: coalesce_blocks_def)
  note f = only_meta_fields [OF om]
  have okc: "heap_ok sc ys"
    using pc nec tc h32 f by (simp add: heap_ok_def)
  have tm: "unat MMAP_THRESHOLD < 2 ^ 64" using unsigned_less [of MMAP_THRESHOLD] by simp
  have ub: "unat ?bytes = unat ?sz + unat ?hs"
    using th tm by (simp add: unat_word_ariths)
  have nth: "\<not> MMAP_THRESHOLD < ?bytes"
    using th ub by (simp add: word_less_nat_alt)
  have main: "\<exists>a s1 zs. os_malloc n s = Some (Inr (a, s1))
                  \<and> a \<noteq> 0 \<and> heap_ok s1 zs \<and> a - header_size s1 \<in> set zs
                  \<and> status_of s1 (a - header_size s1) = STATUS_ALLOC
                  \<and> ?sz \<le> size_of s1 (a - header_size s1)
                  \<and> heap_start s1 = ?h \<and> program_break s1 = program_break s
                  \<and> os_free a s1 =
                       s1\<lparr>meta := (meta s1)(a - header_size s1 :=
                             (meta s1 (a - header_size s1))\<lparr>bm_status := STATUS_FREE\<rparr>)\<rparr>
                  \<and> heap_ok (os_free a s1) zs
                  \<and> status_of (os_free a s1) (a - header_size s1) = STATUS_FREE
                  \<and> heap_start (os_free a s1) = ?h
                  \<and> program_break (os_free a s1) = program_break s"
    if cand: "\<exists>x\<in>set ys. candidate sc ?bytes x"
  proof -
    from find_best_block_found [OF pc hnz cand]
    obtain pre b post where ys: "ys = pre @ b # post" and cb': "candidate sc ?bytes b"
      and fb: "find_best_block ?h ?bytes sc =
                 Some (b, set_status b STATUS_ALLOC (split b ?bytes sc))"
      by blast
    let ?s2 = "set_status b STATUS_ALLOC (split b ?bytes sc)"
    have bin: "b \<in> set ys" using ys by simp
    from heap_ok_member [OF okc bin] have bnz: "b \<noteq> 0" and be: "block_end sc b < 2 ^ 64"
      by simp_all
    from be f have nw: "unat ?hs + unat (size_of sc b) < 2 ^ 64"
      by (simp add: block_end_def)
    then have uhs: "unat (?hs + size_of sc b) = unat ?hs + unat (size_of sc b)"
      by (simp add: unat_word_ariths)
    from cb' f have "?bytes \<le> ?hs + size_of sc b" by (simp add: candidate_def)
    then have bs: "unat ?bytes \<le> unat ?hs + unat (size_of sc b)"
      using uhs by (simp add: word_le_nat_alt)
    have hb: "unat ?hs \<le> unat ?bytes" using ub by simp
    have res: "os_malloc n s = Some (Inr (b + header_size ?s2, ?s2))"
      using nz nth hnz cb fb f bnz by (simp add: os_malloc_def Let_def)
    have "\<exists>zs. heap_ok ?s2 zs \<and> b \<in> set zs \<and> ?sz \<le> size_of ?s2 b
            \<and> heap_start ?s2 = ?h \<and> program_break ?s2 = program_break s"
    proof (cases "?hs < ?hs + size_of sc b - ?bytes")
      case True
      have "heap_ok (split b ?bytes sc) (pre @ b # (b + ?bytes) # post)
         \<and> size_of (split b ?bytes sc) b = ?bytes - header_size sc
         \<and> status_of (split b ?bytes sc) b = status_of sc b
         \<and> heap_start (split b ?bytes sc) = heap_start sc
         \<and> program_break (split b ?bytes sc) = program_break sc
         \<and> header_size (split b ?bytes sc) = header_size sc"
        using okc hb bs True f unfolding ys by (intro split_heap_ok) simp_all
      then have "heap_ok ?s2 (pre @ b # (b + ?bytes) # post)
           \<and> size_of ?s2 b = ?sz \<and> heap_start ?s2 = ?h
           \<and> program_break ?s2 = program_break s"
        using f by (simp add: heap_ok_status setter_simps)
      then have "heap_ok ?s2 (pre @ b # (b + ?bytes) # post)
           \<and> b \<in> set (pre @ b # (b + ?bytes) # post) \<and> ?sz \<le> size_of ?s2 b
           \<and> heap_start ?s2 = ?h \<and> program_break ?s2 = program_break s"
        by simp
      then show ?thesis by blast
    next
      case False
      then have "?hs + size_of sc b - ?bytes \<le> ?hs" by (simp only: not_less)
      then have sp: "split b ?bytes sc = sc" using f by (simp add: split_def)
      have "unat ?sz \<le> unat (size_of sc b)" using bs ub by simp
      then have "?sz \<le> size_of sc b" by (simp add: word_le_nat_alt)
      then have "heap_ok ?s2 ys \<and> b \<in> set ys \<and> ?sz \<le> size_of ?s2 b
            \<and> heap_start ?s2 = ?h \<and> program_break ?s2 = program_break s"
        using okc bin f by (simp add: sp heap_ok_status setter_simps)
      then show ?thesis by blast
    qed
    then obtain zs where z: "heap_ok ?s2 zs" "b \<in> set zs" "?sz \<le> size_of ?s2 b"
      "heap_start ?s2 = ?h" "program_break ?s2 = program_break s"
      by blast
    have st: "status_of ?s2 b = STATUS_ALLOC" by (simp add: setter_simps)
    note fa = free_after_alloc [OF z(1,2) st]
    let ?a = "b + header_size ?s2"
    from fa have ab: "?a - header_size ?s2 = b" by simp
    from fa z(4) have fh: "heap_start (os_free ?a ?s2) = ?h" by (elim conjE) (simp only:)
    from fa z(5) have fp: "program_break (os_free ?a ?s2) = program_break s"
      by (elim conjE) (simp only:)
    show ?thesis
    proof (intro exI [of _ ?a] exI [of _ ?s2] exI [of _ zs] conjI)
      show "os_malloc n s = Some (Inr (?a, ?s2))" by (rule res)
      show "heap_start (os_free ?a ?s2) = ?h" by (rule fh)
      show "program_break (os_free ?a ?s2) = program_break s" by (rule fp)
    qed (unfold ab, insert fa z st, blast+)
  qed
  from om have "sc = s\<lparr>meta := meta sc\<rparr>" by (simp add: only_meta_def)
  with cb okc main show ?thesis by blast
qed

theorem malloc_free_roundtrip_witness:
  "heap_ok one_free [0x10000000]
   \<and> aligned_size 8 \<noteq> 0
   \<and> unat (aligned_size 8) + unat (header_size one_free) \<le> unat MMAP_THRESHOLD
   \<and> coalesce_blocks (heap_start one_free) one_free = Some one_free
   \<and> candidate one_free (aligned_size 8 + header_size one_free) 0x10000000
   \<and> os_malloc 8 one_free = Some (Inr (0x10000020, small_block))
   \<and> heap_ok small_block [0x10000000, 0x10000028]
   \<and> 0x10000020 - header_size small_block = 0x10000000
   \<and> status_of small_block 0x10000000 = STATUS_ALLOC
   \<and> aligned_size 8 \<le> size_of small_block 0x10000000
   \<and> heap_start small_block = heap_start one_free
   \<and> program_break small_block = program_break one_free
   \<and> heap_ok (os_free 0x10000020 small_block) [0x10000000, 0x10000028]
   \<and> status_of (os_free 0x10000020 small_block) 0x10000000 = STATUS_FREE
   \<and> heap_start (os_free 0x10000020 small_block) = heap_start one_free
   \<and> program_break (os_free 0x10000020 small_block) = program_break one_free"
proof -
  have h1: "heap_ok one_free [0x10000000]"
    by (simp add: heap_ok_def block_end_def one_free_def init_state_def sizeof_block_meta_def)
  have h2: "aligned_size 8 \<noteq> 0"
    by (simp add: aligned_size_def)
  have h3: "unat (aligned_size 8) + unat (header_size one_free) \<le> unat MMAP_THRESHOLD"
    by (simp add: aligned_size_def one_free_def init_state_def MMAP_THRESHOLD_def)
  have c: "coalesce_blocks (heap_start one_free) one_free = Some one_free"
    by (simp add: coalesce_blocks_def coalesce_loop.simps one_free_def init_state_def)
  have d: "candidate one_free (aligned_size 8 + header_size one_free) 0x10000000"
    by (simp add: candidate_def aligned_size_def one_free_def init_state_def)
  have r: "os_malloc 8 one_free = Some (Inr (0x10000020, small_block))"
    by (rule small_block_reachable)
  have p: "path small_block (heap_start small_block) [0x10000000, 0x10000028]"
    by (simp add: small_block_def init_state_def)
  have a: "0x10000020 - header_size small_block = 0x10000000"
    by (simp add: small_block_def init_state_def)
  from malloc_free_roundtrip [OF h1 h2 h3] obtain sc ys
    where sc: "coalesce_blocks (heap_start one_free) one_free = Some sc"
      and ok: "heap_ok sc ys"
      and imp: "(\<exists>x\<in>set ys. candidate sc (aligned_size 8 + header_size one_free) x) \<longrightarrow>
               (\<exists>a s1 zs. os_malloc 8 one_free = Some (Inr (a, s1))
                  \<and> a \<noteq> 0 \<and> heap_ok s1 zs \<and> a - header_size s1 \<in> set zs
                  \<and> status_of s1 (a - header_size s1) = STATUS_ALLOC
                  \<and> aligned_size 8 \<le> size_of s1 (a - header_size s1)
                  \<and> heap_start s1 = heap_start one_free
                  \<and> program_break s1 = program_break one_free
                  \<and> os_free a s1 =
                       s1\<lparr>meta := (meta s1)(a - header_size s1 :=
                             (meta s1 (a - header_size s1))\<lparr>bm_status := STATUS_FREE\<rparr>)\<rparr>
                  \<and> heap_ok (os_free a s1) zs
                  \<and> status_of (os_free a s1) (a - header_size s1) = STATUS_FREE
                  \<and> heap_start (os_free a s1) = heap_start one_free
                  \<and> program_break (os_free a s1) = program_break one_free)"
    by blast
  from sc c have e: "sc = one_free" by simp
  from ok h1 have "ys = [0x10000000]"
    unfolding e heap_ok_def by (blast intro: path_unique)
  with imp d e obtain zs where
    z: "heap_ok small_block zs"
       "status_of small_block (0x10000020 - header_size small_block) = STATUS_ALLOC"
       "aligned_size 8 \<le> size_of small_block (0x10000020 - header_size small_block)"
       "heap_start small_block = heap_start one_free"
       "program_break small_block = program_break one_free"
       "heap_ok (os_free 0x10000020 small_block) zs"
       "status_of (os_free 0x10000020 small_block) (0x10000020 - header_size small_block)
          = STATUS_FREE"
       "heap_start (os_free 0x10000020 small_block) = heap_start one_free"
       "program_break (os_free 0x10000020 small_block) = program_break one_free"
    unfolding r by auto
  from z(1) p have "zs = [0x10000000, 0x10000028]"
    unfolding heap_ok_def by (blast intro: path_unique)
  with z h1 h2 h3 c d r a show ?thesis by simp
qed

text \<open>
  The claim as it stands fails for a request above the threshold: the block of
  \<^verbatim>\<open>os_malloc(200000)\<close> is MAPPED, and \<^verbatim>\<open>os_free\<close> releases the mapping and writes to no
  header, so that the block is never marked FREE and its header is no memory of the
  process any more. It also fails for a request that makes the heap grow: for the first
  request of a process the list covers nothing before and 128 KiB after, and for a second
  \<^verbatim>\<open>os_malloc(64)\<close>, which finds no FREE block, the program break is 96 bytes higher after
  the sequence than before it.
\<close>

theorem malloc_free_roundtrip_counterexample:
  "os_malloc 200000 init_state = Some (Inr (0x7f0000000020, mapped_state))
   \<and> status_of mapped_state 0x7f0000000000 = STATUS_MAPPED
   \<and> maps mapped_state = [(0x7f0000000000, 200032)]
   \<and> os_free 0x7f0000000020 mapped_state = mapped_state\<lparr>maps := []\<rparr>
   \<and> \<not> accessible (os_free 0x7f0000000020 mapped_state) 0x7f0000000000
          (unat sizeof_block_meta)
   \<and> os_malloc 64 init_state = Some (Inr (0x10000020, one_block))
   \<and> heap_start init_state = 0 \<and> program_break init_state = 0x10000000
   \<and> heap_start (os_free 0x10000020 one_block) = 0x10000000
   \<and> program_break (os_free 0x10000020 one_block) = 0x10020000
   \<and> os_malloc 64 one_block = Some (Inr (0x10020020, two_blocks))
   \<and> program_break one_block = 0x10020000
   \<and> status_of (os_free 0x10020020 two_blocks) 0x10020000 = STATUS_FREE
   \<and> program_break (os_free 0x10020020 two_blocks) = 0x10020060"
proof -
  have m: "os_malloc 200000 init_state = Some (Inr (0x7f0000000020, mapped_state))"
    by (simp add: model_defs init_state_def mapped_state_def Let_def cong: if_cong)
  have f: "status_of mapped_state 0x7f0000000000 = STATUS_MAPPED
     \<and> maps mapped_state = [(0x7f0000000000, 200032)]
     \<and> os_free 0x7f0000000020 mapped_state = mapped_state\<lparr>maps := []\<rparr>
     \<and> \<not> accessible (os_free 0x7f0000000020 mapped_state) 0x7f0000000000
            (unat sizeof_block_meta)"
    by (simp add: model_defs init_state_def mapped_state_def Let_def)
  have g: "os_malloc 64 init_state = Some (Inr (0x10000020, one_block))
     \<and> heap_start init_state = 0 \<and> program_break init_state = 0x10000000
     \<and> heap_start (os_free 0x10000020 one_block) = 0x10000000
     \<and> program_break (os_free 0x10000020 one_block) = 0x10020000"
    by (simp add: model_defs init_state_def one_block_def Let_def)
  have t: "os_malloc 64 one_block = Some (Inr (0x10020020, two_blocks))"
    by (simp add: model_defs loop_simps init_state_def one_block_def two_blocks_def Let_def
          fun_upd_twist)
  have u: "program_break one_block = 0x10020000
     \<and> status_of (os_free 0x10020020 two_blocks) 0x10020000 = STATUS_FREE
     \<and> program_break (os_free 0x10020020 two_blocks) = 0x10020060"
    by (simp add: model_defs init_state_def one_block_def two_blocks_def Let_def)
  from m f g t u show ?thesis by blast
qed

text \<open>
  C10: \<^verbatim>\<open>os_calloc\<close> multiplies in \<^verbatim>\<open>size_t\<close> and checks nothing. The count \<open>2^61 + 1\<close> and the
  size 8 are positive and their product \<open>2^64 + 8\<close> is at least \<open>2^64\<close>; the aligned wrapped
  product is 8. On the heap \<open>one_free\<close>, whose only block is FREE and has size 131040,
  \<^verbatim>\<open>os_calloc\<close> returns the non-null payload address of that block, which is now ALLOC and
  has the stored size 8, less than the product; the rest of the old block is a FREE
  block of size 131000 behind it.
\<close>

theorem os_calloc_product_wraps:
  "(0 :: size_t) < 0x2000000000000001 \<and> (0 :: size_t) < 8
   \<and> 2 ^ 64 \<le> unat (0x2000000000000001 :: size_t) * unat (8 :: size_t)
   \<and> aligned_size (0x2000000000000001 * 8) = 8
   \<and> unat (aligned_size (0x2000000000000001 * 8))
         < unat (0x2000000000000001 :: size_t) * unat (8 :: size_t)
   \<and> meta one_free 0x10000000 =
        \<lparr>bm_size = 131040, bm_status = STATUS_FREE, bm_prev = 0, bm_next = 0\<rparr>
   \<and> (case os_calloc 0x2000000000000001 8 one_free of
         Some (Inr (p, s')) \<Rightarrow>
           p = 0x10000020 \<and> p - header_size s' = 0x10000000
           \<and> meta s' 0x10000000 =
                \<lparr>bm_size = 8, bm_status = STATUS_ALLOC, bm_prev = 0, bm_next = 0x10000028\<rparr>
           \<and> meta s' 0x10000028 =
                \<lparr>bm_size = 131000, bm_status = STATUS_FREE,
                 bm_prev = 0x10000000, bm_next = 0\<rparr>
           \<and> heap_start s' = heap_start one_free
           \<and> program_break s' = program_break one_free \<and> maps s' = []
       | _ \<Rightarrow> False)"
  by (simp add: eval_defs meta_setters loop_simps one_free_def init_state_def wrapped_products)

end
